theory Spec2Isabelle
  imports Main "HOL-Library.Word" "HOL-Library.Monad_Syntax" "HOL-Library.Sublist"
begin

unbundle bit_operations_syntax

section \<open>The credential cache decoder of credentials/ccache.go\<close>

text \<open>
  The decoder is a set of free functions over a byte slice \<open>b\<close>, a cursor \<open>*p\<close> (a Go
  \<open>int\<close>) and a byte order. The model passes the cursor explicitly and returns the
  advanced one. A Go run-time panic (index out of range, slice bounds out of range,
  makeslice: len out of range) is the result \<open>None\<close>; a returned \<open>error\<close> is a value.

  Go's \<open>int\<close> is 32 or 64 bits wide, as the machine is, and its arithmetic wraps
  around. The model computes on \<open>int\<close> and writes the wrap-around out where a result
  can leave the range: at the decrement \<open>nc--\<close> of \<open>parse_principal\<close> (\<open>go_int\<close> below).
  The additions to the cursor are not wrapped: the cursor is at most the capacity of the
  slice after every slice expression that did not panic, and every amount added to it
  comes from a 16- or 32-bit field, so no such sum leaves the range of a 64-bit \<open>int\<close>;
  on a 32-bit \<open>int\<close> a sum that wraps is the upper bound of a slice expression, lies
  below the lower bound and panics as the unwrapped one, beyond every capacity, does.
  The loop counters stay below a bound that is itself an \<open>int\<close>.
\<close>

subsection \<open>Data model\<close>

type_synonym byte = "8 word"

datatype ByteOrder = BigEndian | LittleEndian

text \<open>
  \<open>types.PrincipalName\<close>, \<open>types.EncryptionKey\<close>, \<open>types.HostAddress\<close> and
  \<open>types.AuthorizationDataEntry\<close> with the fields the decoder assigns. A \<open>time.Time\<close>
  built by \<open>time.Unix(s, 0)\<close> is the number of seconds \<open>s\<close>; \<open>TicketFlags\<close> is the
  \<open>Bytes\<close> field of the bit string. A Go string is a byte sequence, a HOL string a list
  of 8-bit characters.
\<close>

record PrincipalName =
  NameType :: int
  NameString :: "string list"

record principal =
  Realm :: string
  PrincipalName :: PrincipalName

record EncryptionKey =
  KeyType :: int
  KeyValue :: "byte list"

record HostAddress =
  AddrType :: int
  Address :: "byte list"

record AuthorizationDataEntry =
  ADType :: int
  ADData :: "byte list"

record credential =
  Client :: principal
  Server :: principal
  Key :: EncryptionKey
  AuthTime :: int
  StartTime :: int
  EndTime :: int
  RenewTill :: int
  IsSKey :: bool
  TicketFlags :: "byte list"
  Addresses :: "HostAddress list"
  AuthData :: "AuthorizationDataEntry list"
  Ticket :: "byte list"
  SecondTicket :: "byte list"

text \<open>The fields \<open>length\<close>, \<open>value\<close> and \<open>fields\<close> of the source carry a suffix here.\<close>

record headerField =
  tag :: "16 word"
  length_f :: "16 word"
  value_f :: "byte list"

record header =
  length_h :: "16 word"
  fields_h :: "headerField list"

record CCache =
  Version :: byte
  Header :: header
  DefaultPrincipal :: principal
  Credentials :: "credential list"
  Path :: string

text \<open>The zero values of the struct types (\<open>principal{}\<close>, \<open>header{}\<close>, \<open>CCache{}\<close>).\<close>

definition zero_principal :: principal where
  "zero_principal = \<lparr>Realm = [], PrincipalName = \<lparr>NameType = 0, NameString = []\<rparr>\<rparr>"

definition zero_header :: header where
  "zero_header = \<lparr>length_h = 0, fields_h = []\<rparr>"

definition zero_CCache :: CCache where
  "zero_CCache = \<lparr>Version = 0, Header = zero_header, DefaultPrincipal = zero_principal,
     Credentials = [], Path = []\<rparr>"

text \<open>
  The errors \<open>errors.New\<close> builds in the source, named by their kind:
  \<^item> \<open>MalformedMagic\<close>: "Invalid credential cache data. First byte does not equal 5";
  \<^item> \<open>UnsupportedVersion\<close>: "Invalid credential cache data. Keytab version is not within 1 to 4";
  \<^item> \<open>InvalidHeaderField\<close>: "Invalid credential cache header found";
  \<^item> \<open>NoHeaderToParse\<close>: "Credentials cache version is not 4 so there is no header to parse."
\<close>

datatype error = MalformedMagic | UnsupportedVersion | InvalidHeaderField | NoHeaderToParse

subsection \<open>The machine\<close>

text \<open>
  Two things of the machine the decoder runs on reach its results: the byte order, which
  versions 1 and 2 of the format use, and the width of Go's \<open>int\<close>, 32 or 64 bits.
  \<open>go_int H x\<close> is the value of type \<open>int\<close> that an arithmetic result \<open>x\<close> wraps around to
  on the machine \<open>H\<close>.
\<close>

datatype IntSize = Int32 | Int64

fun size_bytes :: "IntSize \<Rightarrow> nat" where
  "size_bytes Int32 = 4"
| "size_bytes Int64 = 8"

record host =
  native :: ByteOrder
  int_size :: IntSize

definition go_int :: "host \<Rightarrow> int \<Rightarrow> int" where
  "go_int H x =
     (case int_size H of
        Int32 \<Rightarrow> sint (word_of_int x :: 32 word)
      | Int64 \<Rightarrow> sint (word_of_int x :: 64 word))"

subsection \<open>Go slices\<close>

text \<open>
  A slice \<open>b\<close> of type \<open>[]byte\<close> is its elements \<open>b[0:len(b)]\<close> followed by the spare
  elements \<open>b[len(b):cap(b)]\<close> of its underlying array. An index expression \<open>b[i]\<close>
  panics unless \<open>0 \<le> i < len(b)\<close>; a slice expression \<open>b[lo:hi]\<close> panics unless
  \<open>0 \<le> lo \<le> hi \<le> cap(b)\<close>, so it may reach into the spare elements.
\<close>

record slice =
  elems :: "byte list"
  spare :: "byte list"

definition len :: "slice \<Rightarrow> int" where
  "len b = int (length (elems b))"

definition array :: "slice \<Rightarrow> byte list" where
  "array b = elems b @ spare b"

definition index :: "slice \<Rightarrow> int \<Rightarrow> byte option" where
  "index b i = (if 0 \<le> i \<and> i < len b then Some (elems b ! nat i) else None)"

definition slice_expr :: "slice \<Rightarrow> int \<Rightarrow> int \<Rightarrow> byte list option" where
  "slice_expr b lo hi =
     (if 0 \<le> lo \<and> lo \<le> hi \<and> hi \<le> int (length (array b))
      then Some (take (nat (hi - lo)) (drop (nat lo) (array b))) else None)"

text \<open>The conversion \<open>string(bs)\<close> of a byte slice.\<close>

definition string_of_bytes :: "byte list \<Rightarrow> string" where
  "string_of_bytes bs = map (\<lambda>w. char_of (unat w)) bs"

subsection \<open>encoding/binary\<close>

text \<open>
  \<open>ByteOrder.Uint16\<close> and \<open>ByteOrder.Uint32\<close> of the standard library, which
  \<open>binary.Read\<close> applies to a buffer of exactly two or four bytes.
\<close>

fun Uint16 :: "ByteOrder \<Rightarrow> byte list \<Rightarrow> 16 word" where
  "Uint16 BigEndian bs = ucast (bs ! 1) OR push_bit 8 (ucast (bs ! 0))"
| "Uint16 LittleEndian bs = ucast (bs ! 0) OR push_bit 8 (ucast (bs ! 1))"

fun Uint32 :: "ByteOrder \<Rightarrow> byte list \<Rightarrow> 32 word" where
  "Uint32 BigEndian bs =
     ucast (bs ! 3) OR push_bit 8 (ucast (bs ! 2)) OR push_bit 16 (ucast (bs ! 1))
       OR push_bit 24 (ucast (bs ! 0))"
| "Uint32 LittleEndian bs =
     ucast (bs ! 0) OR push_bit 8 (ucast (bs ! 1)) OR push_bit 16 (ucast (bs ! 2))
       OR push_bit 24 (ucast (bs ! 3))"

subsection \<open>The primitive reads\<close>

text \<open>
  Each read slices \<open>b[*p : *p+n]\<close>, decodes the slice and advances the cursor. The
  results are the bit patterns of the \<open>int8\<close>, \<open>int16\<close> and \<open>int32\<close> read; \<open>sint\<close> gives
  the signed value and \<open>uint\<close> the value of the conversion to \<open>uint16\<close>.
\<close>

definition read_int8 :: "slice \<Rightarrow> int \<Rightarrow> ByteOrder \<Rightarrow> (8 word \<times> int) option" where
  "read_int8 b p e = do {
     buf \<leftarrow> slice_expr b p (p + 1);
     Some (buf ! 0, p + 1)
   }"

definition read_int16 :: "slice \<Rightarrow> int \<Rightarrow> ByteOrder \<Rightarrow> (16 word \<times> int) option" where
  "read_int16 b p e = do {
     buf \<leftarrow> slice_expr b p (p + 2);
     Some (Uint16 e buf, p + 2)
   }"

definition read_int32 :: "slice \<Rightarrow> int \<Rightarrow> ByteOrder \<Rightarrow> (32 word \<times> int) option" where
  "read_int32 b p e = do {
     buf \<leftarrow> slice_expr b p (p + 4);
     Some (Uint32 e buf, p + 4)
   }"

definition read_Bytes :: "slice \<Rightarrow> int \<Rightarrow> int \<Rightarrow> ByteOrder \<Rightarrow> (byte list \<times> int) option" where
  "read_Bytes b p s e = do {
     buf \<leftarrow> slice_expr b p (p + s);
     Some (buf, p + s)
   }"

definition read_data :: "slice \<Rightarrow> int \<Rightarrow> ByteOrder \<Rightarrow> (byte list \<times> int) option" where
  "read_data b p e = do {
     (l, p) \<leftarrow> read_int32 b p e;
     read_Bytes b p (sint l) e
   }"

definition read_address :: "slice \<Rightarrow> int \<Rightarrow> ByteOrder \<Rightarrow> (HostAddress \<times> int) option" where
  "read_address b p e = do {
     (t, p) \<leftarrow> read_int16 b p e;
     (d, p) \<leftarrow> read_data b p e;
     Some (\<lparr>AddrType = sint t, Address = d\<rparr>, p)
   }"

definition read_authDataEntry ::
  "slice \<Rightarrow> int \<Rightarrow> ByteOrder \<Rightarrow> (AuthorizationDataEntry \<times> int) option" where
  "read_authDataEntry b p e = do {
     (t, p) \<leftarrow> read_int16 b p e;
     (d, p) \<leftarrow> read_data b p e;
     Some (\<lparr>ADType = sint t, ADData = d\<rparr>, p)
   }"

definition read_timestamp :: "slice \<Rightarrow> int \<Rightarrow> ByteOrder \<Rightarrow> (int \<times> int) option" where
  "read_timestamp b p e = do {
     (i, p) \<leftarrow> read_int32 b p e;
     Some (sint i, p)
   }"

subsection \<open>The header (version 4 only)\<close>

definition valid :: "headerField \<Rightarrow> bool" where
  "valid h =
     (if tag h = 1
      then (if length_f h \<noteq> 8 \<or> int (length (value_f h)) \<noteq> 8 then False else True)
      else False)"

text \<open>
  The loop \<open>for *p <= int(h.length)\<close> of \<open>parse_header\<close>. It returns the cursor with the
  error of an invalid field, or with the header once the condition fails.
\<close>

function parse_header_loop ::
  "slice \<Rightarrow> int \<Rightarrow> header \<Rightarrow> ByteOrder \<Rightarrow> (int \<times> (error + header)) option" where
  "parse_header_loop b p h e =
     (if p \<le> uint (length_h h) then do {
        (t, p) \<leftarrow> read_int16 b p e;
        (l, p) \<leftarrow> read_int16 b p e;
        v \<leftarrow> slice_expr b p (p + uint l);
        let f = \<lparr>tag = t, length_f = l, value_f = v\<rparr>;
            p = p + uint l
        in if \<not> valid f then Some (p, Inl InvalidHeaderField)
           else parse_header_loop b p (h\<lparr>fields_h := fields_h h @ [f]\<rparr>) e
      } else Some (p, Inr h))"
  by pat_completeness auto
termination
proof (relation "measure (\<lambda>(b, p, h, e). nat (uint (length_h h) + 1 - p))")
  show "wf (measure (\<lambda>(b, p, h, e). nat (uint (length_h h) + 1 - p)))"
    by simp
next
  fix b :: slice and p :: int and h :: header and e :: ByteOrder
    and x :: "16 word \<times> int" and t p1 and y :: "16 word \<times> int" and l p2 v f p3
  assume le: "p \<le> uint (length_h h)"
    and r1: "read_int16 b p e = Some x" and x: "(t, p1) = x"
    and r2: "read_int16 b p1 e = Some y" and y: "(l, p2) = y"
    and p3: "p3 = p2 + uint l"
  from r1 x have "p1 = p + 2"
    by (auto simp: read_int16_def split: bind_splits)
  moreover from r2 y have "p2 = p1 + 2"
    by (auto simp: read_int16_def split: bind_splits)
  moreover have "0 \<le> uint l"
    by simp
  ultimately have "p < p3"
    using p3 by linarith
  with le show "((b, p3, h\<lparr>fields_h := fields_h h @ [f]\<rparr>, e), (b, p, h, e))
      \<in> measure (\<lambda>(b, p, h, e). nat (uint (length_h h) + 1 - p))"
    by simp
qed

declare parse_header_loop.simps [simp del]

definition parse_header ::
  "slice \<Rightarrow> int \<Rightarrow> CCache \<Rightarrow> ByteOrder \<Rightarrow> (int \<times> CCache \<times> error option) option" where
  "parse_header b p c e =
     (if Version c \<noteq> 4 then Some (p, c, Some NoHeaderToParse)
      else do {
        (l, p) \<leftarrow> read_int16 b p e;
        let h = zero_header\<lparr>length_h := l\<rparr>;
        (p, r) \<leftarrow> parse_header_loop b p h e;
        (case r of
           Inl err \<Rightarrow> Some (p, c, Some err)
         | Inr h \<Rightarrow> Some (p, c\<lparr>Header := h\<rparr>, None))
      })"

subsection \<open>Cursor movement of the primitive reads\<close>

lemma read_int8_cursor: "read_int8 b p e = Some (v, p') \<Longrightarrow> p' = p + 1"
  by (auto simp: read_int8_def split: bind_splits)

lemma read_int16_cursor: "read_int16 b p e = Some (v, p') \<Longrightarrow> p' = p + 2"
  by (auto simp: read_int16_def split: bind_splits)

lemma read_int32_cursor: "read_int32 b p e = Some (v, p') \<Longrightarrow> p' = p + 4"
  by (auto simp: read_int32_def split: bind_splits)

lemma read_Bytes_cursor: "read_Bytes b p s e = Some (v, p') \<Longrightarrow> p \<le> p'"
  by (auto simp: read_Bytes_def slice_expr_def split: bind_splits if_splits)

lemma read_data_cursor: "read_data b p e = Some (v, p') \<Longrightarrow> p + 4 \<le> p'"
  by (auto simp: read_data_def split: bind_splits
      dest!: read_int32_cursor read_Bytes_cursor)

lemma read_timestamp_cursor: "read_timestamp b p e = Some (v, p') \<Longrightarrow> p' = p + 4"
  by (auto simp: read_timestamp_def split: bind_splits dest!: read_int32_cursor)

subsection \<open>Principals\<close>

text \<open>The loop \<open>for i := 0; i < int(nc); i++\<close> of \<open>parse_principal\<close>.\<close>

function parse_principal_loop ::
  "slice \<Rightarrow> int \<Rightarrow> ByteOrder \<Rightarrow> int \<Rightarrow> int \<Rightarrow> string list \<Rightarrow> (string list \<times> int) option" where
  "parse_principal_loop b p e i nc ns =
     (if i < nc then do {
        (l, p) \<leftarrow> read_int32 b p e;
        (s, p) \<leftarrow> read_Bytes b p (sint l) e;
        parse_principal_loop b p e (i + 1) nc (ns @ [string_of_bytes s])
      } else Some (ns, p))"
  by pat_completeness auto
termination
  by (relation "measure (\<lambda>(b, p, e, i, nc, ns). nat (nc - i))") auto

declare parse_principal_loop.simps [simp del]

definition parse_principal ::
  "host \<Rightarrow> slice \<Rightarrow> int \<Rightarrow> CCache \<Rightarrow> ByteOrder \<Rightarrow> (principal \<times> int) option" where
  "parse_principal H b p c e = do {
     let princ = zero_principal;
     (princ, p) \<leftarrow>
       (if Version c \<noteq> 1 then do {
          (t, p) \<leftarrow> read_int32 b p e;
          Some (princ\<lparr>PrincipalName := (PrincipalName princ)\<lparr>NameType := sint t\<rparr>\<rparr>, p)
        } else Some (princ, p));
     (n, p) \<leftarrow> read_int32 b p e;
     let nc = sint n;
     let nc = (if Version c = 1 then go_int H (nc - 1) else nc);
     (len_realm, p) \<leftarrow> read_int32 b p e;
     (r, p) \<leftarrow> read_Bytes b p (sint len_realm) e;
     let princ = princ\<lparr>Realm := string_of_bytes r\<rparr>;
     (ns, p) \<leftarrow> parse_principal_loop b p e 0 nc (NameString (PrincipalName princ));
     Some (princ\<lparr>PrincipalName := (PrincipalName princ)\<lparr>NameString := ns\<rparr>\<rparr>, p)
   }"

lemma parse_principal_loop_cursor:
  "parse_principal_loop b p e i nc ns = Some (ns', p') \<Longrightarrow> p \<le> p'"
proof (induction b p e i nc ns rule: parse_principal_loop.induct)
  case (1 b p e i nc ns)
  show ?case
  proof (cases "i < nc")
    case True
    with "1.prems" obtain l p1 s p2 where
      r1: "read_int32 b p e = Some (l, p1)" and
      r2: "read_Bytes b p1 (sint l) e = Some (s, p2)" and
      r3: "parse_principal_loop b p2 e (i + 1) nc (ns @ [string_of_bytes s]) = Some (ns', p')"
      by (subst (asm) parse_principal_loop.simps) (auto split: bind_splits)
    from "1.IH" [OF True r1 refl r2 refl r3] have "p2 \<le> p'" .
    with read_int32_cursor [OF r1] read_Bytes_cursor [OF r2] show ?thesis
      by linarith
  next
    case False
    with "1.prems" show ?thesis
      by (subst (asm) parse_principal_loop.simps) simp
  qed
qed

lemma parse_principal_cursor:
  "parse_principal H b p c e = Some (princ, p') \<Longrightarrow> p + 8 \<le> p'"
  unfolding parse_principal_def Let_def
  by (auto split: bind_splits if_splits
      dest!: read_int32_cursor read_Bytes_cursor parse_principal_loop_cursor)

subsection \<open>Credentials\<close>

definition zero_HostAddress :: HostAddress where
  "zero_HostAddress = \<lparr>AddrType = 0, Address = []\<rparr>"

definition zero_AuthorizationDataEntry :: AuthorizationDataEntry where
  "zero_AuthorizationDataEntry = \<lparr>ADType = 0, ADData = []\<rparr>"

text \<open>
  \<open>make([]T, l, l)\<close> panics when \<open>l\<close> is negative and otherwise gives \<open>l\<close> zero values
  (memory is taken to be unbounded). The name \<open>make\<close> belongs to the records above.
\<close>

definition make_slice :: "'a \<Rightarrow> int \<Rightarrow> 'a list option" where
  "make_slice z l = (if l < 0 then None else Some (replicate (nat l) z))"

text \<open>
  The loops \<open>for i := range cred.Addresses\<close> and \<open>for i := range cred.AuthData\<close>: the
  index runs from \<open>0\<close> to the length the slice had when the loop began.
\<close>

function read_address_loop ::
  "slice \<Rightarrow> int \<Rightarrow> ByteOrder \<Rightarrow> int \<Rightarrow> HostAddress list \<Rightarrow> (HostAddress list \<times> int) option"
  where
  "read_address_loop b p e i as =
     (if i < int (length as) then do {
        (a, p) \<leftarrow> read_address b p e;
        read_address_loop b p e (i + 1) (as[nat i := a])
      } else Some (as, p))"
  by pat_completeness auto
termination
  by (relation "measure (\<lambda>(b, p, e, i, as). nat (int (length as) - i))") auto

declare read_address_loop.simps [simp del]

function read_authDataEntry_loop ::
  "slice \<Rightarrow> int \<Rightarrow> ByteOrder \<Rightarrow> int \<Rightarrow> AuthorizationDataEntry list
     \<Rightarrow> (AuthorizationDataEntry list \<times> int) option" where
  "read_authDataEntry_loop b p e i as =
     (if i < int (length as) then do {
        (a, p) \<leftarrow> read_authDataEntry b p e;
        read_authDataEntry_loop b p e (i + 1) (as[nat i := a])
      } else Some (as, p))"
  by pat_completeness auto
termination
  by (relation "measure (\<lambda>(b, p, e, i, as). nat (int (length as) - i))") auto

declare read_authDataEntry_loop.simps [simp del]

text \<open>
  \<open>parse_credential\<close> never assigns its result \<open>err\<close>, so the error it returns is
  always \<open>nil\<close>; the result keeps the component as the signature has it.
\<close>

definition parse_credential ::
  "host \<Rightarrow> slice \<Rightarrow> int \<Rightarrow> CCache \<Rightarrow> ByteOrder \<Rightarrow> (credential \<times> error option \<times> int) option" where
  "parse_credential H b p c e = do {
     (client, p) \<leftarrow> parse_principal H b p c e;
     (server, p) \<leftarrow> parse_principal H b p c e;
     (kt, p) \<leftarrow> read_int16 b p e;
     (kt, p) \<leftarrow> (if Version c = 3 then read_int16 b p e else Some (kt, p));
     (kv, p) \<leftarrow> read_data b p e;
     let key = \<lparr>KeyType = sint kt, KeyValue = kv\<rparr>;
     (authtime, p) \<leftarrow> read_timestamp b p e;
     (starttime, p) \<leftarrow> read_timestamp b p e;
     (endtime, p) \<leftarrow> read_timestamp b p e;
     (renewtill, p) \<leftarrow> read_timestamp b p e;
     (ik, p) \<leftarrow> read_int8 b p e;
     let isskey = (if ik = 0 then False else True);
     (flags, p) \<leftarrow> read_Bytes b p 4 e;
     (l, p) \<leftarrow> read_int32 b p e;
     addresses \<leftarrow> make_slice zero_HostAddress (sint l);
     (addresses, p) \<leftarrow> read_address_loop b p e 0 addresses;
     (l, p) \<leftarrow> read_int32 b p e;
     authdata \<leftarrow> make_slice zero_AuthorizationDataEntry (sint l);
     (authdata, p) \<leftarrow> read_authDataEntry_loop b p e 0 authdata;
     (ticket, p) \<leftarrow> read_data b p e;
     (secondticket, p) \<leftarrow> read_data b p e;
     Some (\<lparr>Client = client, Server = server, Key = key, AuthTime = authtime,
        StartTime = starttime, EndTime = endtime, RenewTill = renewtill, IsSKey = isskey,
        TicketFlags = flags, Addresses = addresses, AuthData = authdata, Ticket = ticket,
        SecondTicket = secondticket\<rparr>, None, p)
   }"

lemma read_address_cursor: "read_address b p e = Some (a, p') \<Longrightarrow> p \<le> p'"
  by (auto simp: read_address_def split: bind_splits
      dest!: read_int16_cursor read_data_cursor)

lemma read_authDataEntry_cursor: "read_authDataEntry b p e = Some (a, p') \<Longrightarrow> p \<le> p'"
  by (auto simp: read_authDataEntry_def split: bind_splits
      dest!: read_int16_cursor read_data_cursor)

lemma read_address_loop_cursor:
  "read_address_loop b p e i as = Some (as', p') \<Longrightarrow> p \<le> p'"
proof (induction b p e i as rule: read_address_loop.induct)
  case (1 b p e i as)
  show ?case
  proof (cases "i < int (length as)")
    case True
    with "1.prems" obtain a p1 where
      r1: "read_address b p e = Some (a, p1)" and
      r2: "read_address_loop b p1 e (i + 1) (as[nat i := a]) = Some (as', p')"
      by (subst (asm) read_address_loop.simps) (auto split: bind_splits)
    from "1.IH" [OF True r1 refl r2] read_address_cursor [OF r1] show ?thesis
      by linarith
  next
    case False
    with "1.prems" show ?thesis
      by (subst (asm) read_address_loop.simps) simp
  qed
qed

lemma read_authDataEntry_loop_cursor:
  "read_authDataEntry_loop b p e i as = Some (as', p') \<Longrightarrow> p \<le> p'"
proof (induction b p e i as rule: read_authDataEntry_loop.induct)
  case (1 b p e i as)
  show ?case
  proof (cases "i < int (length as)")
    case True
    with "1.prems" obtain a p1 where
      r1: "read_authDataEntry b p e = Some (a, p1)" and
      r2: "read_authDataEntry_loop b p1 e (i + 1) (as[nat i := a]) = Some (as', p')"
      by (subst (asm) read_authDataEntry_loop.simps) (auto split: bind_splits)
    from "1.IH" [OF True r1 refl r2] read_authDataEntry_cursor [OF r1] show ?thesis
      by linarith
  next
    case False
    with "1.prems" show ?thesis
      by (subst (asm) read_authDataEntry_loop.simps) simp
  qed
qed

lemma parse_credential_cursor:
  assumes "parse_credential H b p c e = Some (cred, err, p')"
  shows "p < p'"
proof -
  from assms obtain client p1 where
    r1: "parse_principal H b p c e = Some (client, p1)"
    unfolding parse_credential_def by (auto split: bind_splits)
  from assms r1 have "p1 \<le> p'"
    unfolding parse_credential_def Let_def
    by (auto split: bind_splits if_splits
      dest!: parse_principal_cursor read_int8_cursor read_int16_cursor read_int32_cursor
        read_Bytes_cursor read_data_cursor read_timestamp_cursor read_address_loop_cursor
        read_authDataEntry_loop_cursor)
  with parse_principal_cursor [OF r1] show ?thesis
    by linarith
qed

lemma parse_credential_err:
  "parse_credential H b p c e = Some (cred, err, p') \<Longrightarrow> err = None"
  unfolding parse_credential_def Let_def
  by (auto split: bind_splits)

subsection \<open>The top-level decoder\<close>

text \<open>
  The probe \<open>isNativeEndianLittle\<close> reads the lowest-addressed byte of the \<open>int\<close>
  variable \<open>x = 0x012345678\<close>. What that byte is depends on the machine: its byte order
  and the size of \<open>int\<close>. \<open>int_memory\<close> is the memory of an \<open>int\<close> variable from its
  lowest address on.
\<close>

definition int_memory :: "host \<Rightarrow> int \<Rightarrow> byte list" where
  "int_memory H x =
     (let le = map (\<lambda>i. word_of_int (x div 256 ^ i)) [0..<size_bytes (int_size H)]
      in case native H of LittleEndian \<Rightarrow> le | BigEndian \<Rightarrow> rev le)"

definition isNativeEndianLittle :: "host \<Rightarrow> bool" where
  "isNativeEndianLittle H =
     (let x = 0x012345678;
          bp = take 4 (int_memory H x)
      in if 0x01 = bp ! 0 then False
         else if (0x78 AND 0xff) = (bp ! 0 AND 0xff) then True
         else False)"

text \<open>The loop \<open>for p < len(b)\<close> of \<open>ParseCCache\<close>.\<close>

function ParseCCache_loop ::
  "host \<Rightarrow> slice \<Rightarrow> int \<Rightarrow> CCache \<Rightarrow> ByteOrder \<Rightarrow> (CCache \<times> error option) option" where
  "ParseCCache_loop H b p c e =
     (if p < len b then do {
        (cred, err, p) \<leftarrow> parse_credential H b p c e;
        (case err of
           Some er \<Rightarrow> Some (c, Some er)
         | None \<Rightarrow> ParseCCache_loop H b p (c\<lparr>Credentials := Credentials c @ [cred]\<rparr>) e)
      } else Some (c, None))"
  by pat_completeness auto
termination
proof (relation "measure (\<lambda>(H, b, p, c, e). nat (len b - p))")
  show "wf (measure (\<lambda>(H, b, p, c, e). nat (len b - p)))"
    by simp
next
  fix H :: host and b :: slice and p :: int and c :: CCache and e :: ByteOrder
    and x :: "credential \<times> error option \<times> int" and cred y err p'
  assume lt: "p < len b"
    and r: "parse_credential H b p c e = Some x"
    and x: "(cred, y) = x" and y: "(err, p') = y"
  from r x y have "parse_credential H b p c e = Some (cred, err, p')"
    by simp
  then have "p < p'"
    by (rule parse_credential_cursor)
  with lt show "((H, b, p', c\<lparr>Credentials := Credentials c @ [cred]\<rparr>, e), (H, b, p, c, e))
      \<in> measure (\<lambda>(H, b, p, c, e). nat (len b - p))"
    by simp
qed

declare ParseCCache_loop.simps [simp del]

text \<open>
  \<open>ParseCCache\<close> returns its named results \<open>c\<close> and \<open>err\<close>: at an error the cache is
  returned as far as it has been assigned. The host is the machine the decoder runs on.
\<close>

definition ParseCCache :: "host \<Rightarrow> slice \<Rightarrow> (CCache \<times> error option) option" where
  "ParseCCache H b = do {
     let c = zero_CCache;
     let p = 0;
     b0 \<leftarrow> index b p;
     if sint b0 \<noteq> 5 then Some (c, Some MalformedMagic)
     else do {
       let p = p + 1;
       b1 \<leftarrow> index b p;
       let c = c\<lparr>Version := b1\<rparr>;
       if Version c < 1 \<or> Version c > 4 then Some (c, Some UnsupportedVersion)
       else do {
         let p = p + 1;
         let endian = (if (Version c = 1 \<or> Version c = 2) \<and> isNativeEndianLittle H
                       then LittleEndian else BigEndian);
         (p, c, err) \<leftarrow>
           (if Version c = 4 then parse_header b p c endian else Some (p, c, None));
         (case err of
            Some er \<Rightarrow> Some (c, Some er)
          | None \<Rightarrow> do {
              (princ, p) \<leftarrow> parse_principal H b p c endian;
              let c = c\<lparr>DefaultPrincipal := princ\<rparr>;
              ParseCCache_loop H b p c endian
            })
       }
     }
   }"

subsection \<open>Queries\<close>

text \<open>
  \<open>strings.HasPrefix\<close> of the standard library. \<open>PrincipalName.Equal\<close> belongs to the
  package \<open>types\<close>, which is not part of these sources: the queries take it as the
  parameter \<open>Equal\<close>.
\<close>

definition HasPrefix :: "string \<Rightarrow> string \<Rightarrow> bool" where
  "HasPrefix s pre = (length s \<ge> length pre \<and> take (length pre) s = pre)"

definition zero_credential :: credential where
  "zero_credential = \<lparr>Client = zero_principal, Server = zero_principal,
     Key = \<lparr>KeyType = 0, KeyValue = []\<rparr>, AuthTime = 0, StartTime = 0, EndTime = 0,
     RenewTill = 0, IsSKey = False, TicketFlags = [], Addresses = [], AuthData = [],
     Ticket = [], SecondTicket = []\<rparr>"

fun Contains_loop ::
  "(PrincipalName \<Rightarrow> PrincipalName \<Rightarrow> bool) \<Rightarrow> credential list \<Rightarrow> PrincipalName \<Rightarrow> bool"
  where
  "Contains_loop Equal [] p = False"
| "Contains_loop Equal (cred # creds) p =
     (if Equal (PrincipalName (Server cred)) p then True else Contains_loop Equal creds p)"

definition Contains ::
  "(PrincipalName \<Rightarrow> PrincipalName \<Rightarrow> bool) \<Rightarrow> CCache \<Rightarrow> PrincipalName \<Rightarrow> bool" where
  "Contains Equal c p = Contains_loop Equal (Credentials c) p"

fun GetEntry_loop ::
  "(PrincipalName \<Rightarrow> PrincipalName \<Rightarrow> bool) \<Rightarrow> credential list \<Rightarrow> PrincipalName
     \<Rightarrow> credential \<times> bool" where
  "GetEntry_loop Equal [] p = (zero_credential, False)"
| "GetEntry_loop Equal (cred # creds) p =
     (if Equal (PrincipalName (Server cred)) p then (cred, True)
      else GetEntry_loop Equal creds p)"

definition GetEntry ::
  "(PrincipalName \<Rightarrow> PrincipalName \<Rightarrow> bool) \<Rightarrow> CCache \<Rightarrow> PrincipalName
     \<Rightarrow> credential \<times> bool" where
  "GetEntry Equal c p =
     (let (cred, found) = GetEntry_loop Equal (Credentials c) p
      in if \<not> found then (cred, False) else (cred, True))"

fun GetEntries_loop :: "credential list \<Rightarrow> credential list \<Rightarrow> credential list" where
  "GetEntries_loop [] creds = creds"
| "GetEntries_loop (cred # rest) creds =
     (if HasPrefix (Realm (Server cred)) ''X-CACHECONF'' then GetEntries_loop rest creds
      else GetEntries_loop rest (creds @ [cred]))"

definition GetEntries :: "CCache \<Rightarrow> credential list" where
  "GetEntries c = GetEntries_loop (Credentials c) []"

definition GetClientPrincipalName :: "CCache \<Rightarrow> PrincipalName" where
  "GetClientPrincipalName c = PrincipalName (DefaultPrincipal c)"

definition GetClientRealm :: "CCache \<Rightarrow> string" where
  "GetClientRealm c = Realm (DefaultPrincipal c)"

text \<open>
  The rest of \<open>ParseCCache\<close> once the version byte is accepted and the byte order is
  chosen (from \<open>if c.Version == 4\<close> on), with the cursor at 2: a name for that part of
  the function, which \<open>ParseCCache_eq\<close> below relates to the function itself.
\<close>

definition ParseCCache_body ::
  "host \<Rightarrow> slice \<Rightarrow> CCache \<Rightarrow> ByteOrder \<Rightarrow> (CCache \<times> error option) option" where
  "ParseCCache_body H b c endian = do {
     (p, c, err) \<leftarrow>
       (if Version c = 4 then parse_header b 2 c endian else Some (2, c, None));
     (case err of
        Some er \<Rightarrow> Some (c, Some er)
      | None \<Rightarrow> do {
          (princ, p) \<leftarrow> parse_principal H b p c endian;
          let c = c\<lparr>DefaultPrincipal := princ\<rparr>;
          ParseCCache_loop H b p c endian
        })
   }"

subsection \<open>Machines and buffers of the examples\<close>

text \<open>
  Four machines Go runs on, by their \<open>GOARCH\<close>: little- and big-endian, with a 64- and
  a 32-bit \<open>int\<close>. \<open>fresh bs\<close> is a slice with the elements \<open>bs\<close> and no spare
  capacity, such as the value of a composite literal \<open>[]byte{...}\<close>.
\<close>

definition amd64 :: host where
  "amd64 = \<lparr>native = LittleEndian, int_size = Int64\<rparr>"

definition i386 :: host where
  "i386 = \<lparr>native = LittleEndian, int_size = Int32\<rparr>"

definition s390x :: host where
  "s390x = \<lparr>native = BigEndian, int_size = Int64\<rparr>"

definition mips :: host where
  "mips = \<lparr>native = BigEndian, int_size = Int32\<rparr>"

definition fresh :: "byte list \<Rightarrow> slice" where
  "fresh bs = \<lparr>elems = bs, spare = []\<rparr>"

section \<open>Properties of the decoder\<close>

subsection \<open>Auxiliary facts\<close>

lemma sint_byte_eq_5: "sint (x :: byte) = 5 \<longleftrightarrow> x = 5"
proof
  assume "sint x = 5"
  then have "(word_of_int (sint x) :: byte) = word_of_int 5"
    by simp
  then show "x = 5"
    by simp
qed simp

lemma index_0: "index b 0 = (case elems b of [] \<Rightarrow> None | x # xs \<Rightarrow> Some x)"
  by (simp add: index_def len_def split: list.splits)

lemma index_1:
  "index b 1 = (case elems b of [] \<Rightarrow> None | [x] \<Rightarrow> None | x # y # xs \<Rightarrow> Some y)"
  by (simp add: index_def len_def split: list.splits)

lemma parse_header_loop_field:
  assumes "p \<le> uint (length_h h)" and "read_int16 b p e = Some (t, p1)"
    and "read_int16 b p1 e = Some (l, p2)" and "slice_expr b p2 (p2 + uint l) = Some v"
  shows "parse_header_loop b p h e =
    (if \<not> valid \<lparr>tag = t, length_f = l, value_f = v\<rparr>
     then Some (p2 + uint l, Inl InvalidHeaderField)
     else parse_header_loop b (p2 + uint l)
       (h\<lparr>fields_h := fields_h h @ [\<lparr>tag = t, length_f = l, value_f = v\<rparr>]\<rparr>) e)"
  by (subst parse_header_loop.simps) (simp add: assms Let_def)

lemma parse_header_loop_reads:
  assumes "p \<le> uint (length_h h)" and "parse_header_loop b p h e = Some r"
  shows "\<exists>t p1 l p2 v. read_int16 b p e = Some (t, p1) \<and> read_int16 b p1 e = Some (l, p2)
    \<and> slice_expr b p2 (p2 + uint l) = Some v"
  using assms
  by (subst (asm) parse_header_loop.simps) (auto split: bind_splits)

lemma parse_header_loop_unfold:
  assumes "p \<le> uint (length_h h)" and "parse_header_loop b p h e = Some r"
  obtains t p1 l p2 v where
    "read_int16 b p e = Some (t, p1)" and "read_int16 b p1 e = Some (l, p2)" and
    "slice_expr b p2 (p2 + uint l) = Some v" and
    "\<not> valid \<lparr>tag = t, length_f = l, value_f = v\<rparr> \<Longrightarrow>
       r = (p2 + uint l, Inl InvalidHeaderField)" and
    "valid \<lparr>tag = t, length_f = l, value_f = v\<rparr> \<Longrightarrow>
       parse_header_loop b (p2 + uint l)
         (h\<lparr>fields_h := fields_h h @ [\<lparr>tag = t, length_f = l, value_f = v\<rparr>]\<rparr>) e = Some r"
proof -
  from parse_header_loop_reads [OF assms] obtain t p1 l p2 v where
    r: "read_int16 b p e = Some (t, p1)" "read_int16 b p1 e = Some (l, p2)"
      "slice_expr b p2 (p2 + uint l) = Some v"
    by blast
  from parse_header_loop_field [OF assms(1) r] assms(2) that [OF r] show thesis
    by (simp split: if_splits)
qed

lemma parse_header_loop_stop:
  "\<not> p \<le> uint (length_h h) \<Longrightarrow> parse_header_loop b p h e = Some (p, Inr h)"
  by (subst parse_header_loop.simps) simp

lemma parse_header_loop_error:
  "parse_header_loop b p h e = Some (p', Inl err) \<Longrightarrow> err = InvalidHeaderField"
proof (induction b p h e rule: parse_header_loop.induct)
  case (1 b p h e)
  show ?case
  proof (cases "p \<le> uint (length_h h)")
    case True
    from True "1.prems" show ?thesis
    proof (rule parse_header_loop_unfold)
      fix t p1 l p2 v
      let ?f = "\<lparr>tag = t, length_f = l, value_f = v\<rparr>"
      assume r: "read_int16 b p e = Some (t, p1)" "read_int16 b p1 e = Some (l, p2)"
        "slice_expr b p2 (p2 + uint l) = Some v"
        and bad: "\<not> valid ?f \<Longrightarrow> (p', Inl err) = (p2 + uint l, Inl InvalidHeaderField)"
        and good: "valid ?f \<Longrightarrow> parse_header_loop b (p2 + uint l)
          (h\<lparr>fields_h := fields_h h @ [?f]\<rparr>) e = Some (p', Inl err)"
      show ?thesis
      proof (cases "valid ?f")
        case True
        from "1.IH" [OF \<open>p \<le> uint (length_h h)\<close> r(1) refl r(2) refl r(3) refl refl _ good [OF True]]
          True show ?thesis by simp
      next
        case False
        with bad show ?thesis by simp
      qed
    qed
  next
    case False
    with "1.prems" show ?thesis
      by (simp add: parse_header_loop_stop)
  qed
qed

lemma parse_header_error:
  assumes "parse_header b p c e = Some (p', c', Some err)"
  shows "c' = c \<and> err = (if Version c = 4 then InvalidHeaderField else NoHeaderToParse)"
proof (cases "Version c = 4")
  case True
  with assms obtain l p1 p2 r where
    "parse_header_loop b p1 (zero_header\<lparr>length_h := l\<rparr>) e = Some (p2, r)" and
    "(case r of Inl err \<Rightarrow> Some (p2, c, Some err)
      | Inr h \<Rightarrow> Some (p2, c\<lparr>Header := h\<rparr>, None)) = Some (p', c', Some err)"
    by (auto simp: parse_header_def Let_def split: bind_splits)
  with True show ?thesis
    by (cases r) (auto dest: parse_header_loop_error)
next
  case False
  with assms show ?thesis
    by (auto simp: parse_header_def)
qed

lemma ParseCCache_loop_no_error:
  "ParseCCache_loop H b p c e = Some (c', r) \<Longrightarrow> r = None"
proof (induction H b p c e rule: ParseCCache_loop.induct)
  case (1 H b p c e)
  show ?case
  proof (cases "p < len b")
    case True
    with "1.prems" obtain cred err p1 where
      r1: "parse_credential H b p c e = Some (cred, err, p1)" and
      r2: "(case err of Some er \<Rightarrow> Some (c, Some er)
           | None \<Rightarrow> ParseCCache_loop H b p1 (c\<lparr>Credentials := Credentials c @ [cred]\<rparr>) e)
           = Some (c', r)"
      by (subst (asm) ParseCCache_loop.simps) (auto split: bind_splits)
    from parse_credential_err [OF r1] have err: "err = None" .
    with r2 have "ParseCCache_loop H b p1 (c\<lparr>Credentials := Credentials c @ [cred]\<rparr>) e
        = Some (c', r)"
      by simp
    with "1.IH" [OF True r1 refl refl err] show ?thesis
      by simp
  next
    case False
    with "1.prems" show ?thesis
      by (subst (asm) ParseCCache_loop.simps) simp
  qed
qed

lemma ParseCCache_eq:
  "ParseCCache H b =
     (case elems b of
        [] \<Rightarrow> None
      | x # xs \<Rightarrow>
          if x \<noteq> 5 then Some (zero_CCache, Some MalformedMagic)
          else (case xs of
             [] \<Rightarrow> None
           | v # _ \<Rightarrow>
               if v < 1 \<or> v > 4
               then Some (zero_CCache\<lparr>Version := v\<rparr>, Some UnsupportedVersion)
               else ParseCCache_body H b (zero_CCache\<lparr>Version := v\<rparr>)
                 (if (v = 1 \<or> v = 2) \<and> isNativeEndianLittle H
                  then LittleEndian else BigEndian)))"
  by (simp add: ParseCCache_def ParseCCache_body_def index_0 index_1 sint_byte_eq_5 Let_def
      split: list.splits)

lemma ParseCCache_body_error:
  assumes "ParseCCache_body H b c e = Some (c', Some err)"
  shows "c' = c \<and> err = InvalidHeaderField \<and> Version c = 4"
proof -
  from assms obtain p1 c1 err1 where
    h: "(if Version c = 4 then parse_header b 2 c e else Some (2, c, None)) = Some (p1, c1, err1)"
    and rest: "(case err1 of
        Some er \<Rightarrow> Some (c1, Some er)
      | None \<Rightarrow> do {
          (princ, p) \<leftarrow> parse_principal H b p1 c1 e;
          let c = c1\<lparr>DefaultPrincipal := princ\<rparr>;
          ParseCCache_loop H b p c e
        }) = Some (c', Some err)"
    by (auto simp: ParseCCache_body_def split: bind_splits)
  show ?thesis
  proof (cases err1)
    case None
    with rest have False
      by (auto simp: Let_def split: bind_splits dest: ParseCCache_loop_no_error)
    then show ?thesis ..
  next
    case (Some er)
    with rest have "c' = c1" "err = er"
      by simp_all
    with h Some show ?thesis
      by (auto split: if_splits dest: parse_header_error)
  qed
qed

subsection \<open>The magic byte\<close>

text \<open>
  C8. A buffer with at least one byte whose first byte is not 5 is refused with the
  error \<open>MalformedMagic\<close>, whatever follows, and the cache returned with it is the zero
  value. The empty buffer is not: the index expression \<open>b[0]\<close> panics.
\<close>

theorem ParseCCache_MalformedMagic:
  "(elems b = [] \<longrightarrow> ParseCCache H b = None) \<and>
   (\<forall>x xs. elems b = x # xs \<and> x \<noteq> 5 \<longrightarrow>
      ParseCCache H b = Some (zero_CCache, Some MalformedMagic))"
  by (simp add: ParseCCache_def index_0 sint_byte_eq_5)

theorem ParseCCache_MalformedMagic_witness:
  "ParseCCache s390x \<lparr>elems = [], spare = [5, 4]\<rparr> = None \<and>
   ParseCCache amd64 (fresh [4, 9]) = Some (zero_CCache, Some MalformedMagic)"
  using ParseCCache_MalformedMagic [of "\<lparr>elems = [], spare = [5, 4]\<rparr>" s390x]
    ParseCCache_MalformedMagic [of "fresh [4, 9]" amd64]
  by (simp add: fresh_def)

text \<open>The claim as it stands fails at the buffer of length zero.\<close>

theorem ParseCCache_empty_counterexample:
  "ParseCCache amd64 (fresh []) = None"
  by (simp add: ParseCCache_def index_0 fresh_def)

subsection \<open>The cache returned with an error\<close>

text \<open>
  C2. When \<open>ParseCCache\<close> returns an error, the cache returned with it has no
  credentials, the zero header, the zero default principal and no path: nothing of the
  header, the principal or the credentials of the failed pass. Its \<open>Version\<close> is the
  version byte decoded, unless the error is \<open>MalformedMagic\<close>, where it is zero. The
  errors returned are \<open>MalformedMagic\<close>, \<open>UnsupportedVersion\<close> and
  \<open>InvalidHeaderField\<close>.
\<close>

theorem ParseCCache_error_cache:
  assumes "ParseCCache H b = Some (c, Some err)"
  shows "Header c = zero_header \<and> DefaultPrincipal c = zero_principal \<and>
    Credentials c = [] \<and> Path c = [] \<and>
    Version c = (if err = MalformedMagic then 0 else elems b ! 1) \<and>
    (err = MalformedMagic \<or> err = UnsupportedVersion \<or> err = InvalidHeaderField)"
  using assms
  by (auto simp: ParseCCache_eq zero_CCache_def split: list.splits if_splits
      dest!: ParseCCache_body_error)

theorem ParseCCache_error_cache_witness:
  "ParseCCache mips (fresh [5, 4, 0, 12, 0, 1, 0, 7, 0, 0, 0, 0, 0, 0, 0]) =
     Some (zero_CCache\<lparr>Version := 4\<rparr>, Some InvalidHeaderField) \<and>
   Header (zero_CCache\<lparr>Version := 4\<rparr>) = zero_header \<and>
   DefaultPrincipal (zero_CCache\<lparr>Version := 4\<rparr>) = zero_principal \<and>
   Credentials (zero_CCache\<lparr>Version := 4\<rparr>) = [] \<and>
   Path (zero_CCache\<lparr>Version := 4\<rparr>) = [] \<and>
   Version (zero_CCache\<lparr>Version := 4\<rparr>) = 4"
proof -
  have h: "ParseCCache mips (fresh [5, 4, 0, 12, 0, 1, 0, 7, 0, 0, 0, 0, 0, 0, 0]) =
     Some (zero_CCache\<lparr>Version := 4\<rparr>, Some InvalidHeaderField)"
    by code_simp
  show ?thesis
    using h ParseCCache_error_cache [OF h] by (simp add: fresh_def)
qed

text \<open>
  The claim as it stands fails where the version byte is refused: the cache returned
  with the error carries the version decoded.
\<close>

theorem ParseCCache_version_counterexample:
  "ParseCCache amd64 (fresh [5, 7]) =
     Some (zero_CCache\<lparr>Version := 7\<rparr>, Some UnsupportedVersion) \<and>
   zero_CCache\<lparr>Version := 7\<rparr> \<noteq> zero_CCache"
  by (simp add: ParseCCache_eq fresh_def zero_CCache_def)

subsection \<open>Header fields\<close>

lemma valid_iff: "valid f \<longleftrightarrow> tag f = 1 \<and> length_f f = 8 \<and> length (value_f f) = 8"
  by (simp add: valid_def)

lemma slice_expr_length: "slice_expr b lo hi = Some v \<Longrightarrow> int (length v) = hi - lo"
  by (auto simp: slice_expr_def split: if_splits)

lemma parse_header_loop_invalid:
  assumes "p \<le> uint (length_h h)" and "read_int16 b p e = Some (t, p1)"
    and "read_int16 b p1 e = Some (l, p2)" and "slice_expr b p2 (p2 + uint l) = Some v"
    and "t \<noteq> 1 \<or> l \<noteq> 8"
  shows "parse_header_loop b p h e = Some (p2 + uint l, Inl InvalidHeaderField)"
  using assms(5) by (auto simp: parse_header_loop_field [OF assms(1-4)] valid_iff)

lemma parse_header_loop_valid:
  assumes "p \<le> uint (length_h h)" and "read_int16 b p e = Some (1, p1)"
    and "read_int16 b p1 e = Some (8, p2)" and "slice_expr b p2 (p2 + 8) = Some v"
  shows "parse_header_loop b p h e =
    parse_header_loop b (p2 + 8)
      (h\<lparr>fields_h := fields_h h @ [\<lparr>tag = 1, length_f = 8, value_f = v\<rparr>]\<rparr>) e"
proof -
  from assms(4) have v: "slice_expr b p2 (p2 + uint (8 :: 16 word)) = Some v"
    by simp
  from slice_expr_length [OF assms(4)] have "length v = 8"
    by simp
  then show ?thesis
    by (simp add: parse_header_loop_field [OF assms(1-3) v] valid_iff)
qed

lemma parse_header_loop_panic:
  assumes "p \<le> uint (length_h h)" and "read_int16 b p e = Some (t, p1)"
    and "read_int16 b p1 e = Some (l, p2)" and "slice_expr b p2 (p2 + uint l) = None"
  shows "parse_header_loop b p h e = None"
  by (subst parse_header_loop.simps) (simp add: assms)

text \<open>
  C7. A header field is valid if and only if its tag is 1, its length is 8 and its value
  has 8 bytes. Wherever the loop of \<open>parse_header\<close> stands, a field with another tag or
  another length whose value lies within the capacity of the buffer ends the loop with
  the error \<open>InvalidHeaderField\<close>; a field, valid or not, whose declared length reaches
  beyond the capacity makes the slice expression for its value panic, before the field
  is checked; a field with tag 1 and length 8 is appended and the loop goes on. An
  error of the loop is the error \<open>ParseCCache\<close> returns for a version-4 buffer, and a
  panic of the loop is a panic of \<open>ParseCCache\<close>.
\<close>

theorem headerField_valid:
  "(valid f \<longleftrightarrow> tag f = 1 \<and> length_f f = 8 \<and> length (value_f f) = 8) \<and>
   (p \<le> uint (length_h h) \<and> read_int16 b p e = Some (t, p1) \<and>
    read_int16 b p1 e = Some (l, p2) \<and> slice_expr b p2 (p2 + uint l) = Some v \<and>
    (t \<noteq> 1 \<or> l \<noteq> 8) \<longrightarrow>
      parse_header_loop b p h e = Some (p2 + uint l, Inl InvalidHeaderField)) \<and>
   (p \<le> uint (length_h h) \<and> read_int16 b p e = Some (t, p1) \<and>
    read_int16 b p1 e = Some (l, p2) \<and> slice_expr b p2 (p2 + uint l) = None \<longrightarrow>
      parse_header_loop b p h e = None) \<and>
   (p \<le> uint (length_h h) \<and> read_int16 b p e = Some (1, p1) \<and>
    read_int16 b p1 e = Some (8, p2) \<and> slice_expr b p2 (p2 + 8) = Some v \<longrightarrow>
      parse_header_loop b p h e =
        parse_header_loop b (p2 + 8)
          (h\<lparr>fields_h := fields_h h @ [\<lparr>tag = 1, length_f = 8, value_f = v\<rparr>]\<rparr>) e) \<and>
   (elems b = 5 # 4 # rest \<and> read_int16 b 2 BigEndian = Some (n, q1) \<and>
    parse_header_loop b q1 (zero_header\<lparr>length_h := n\<rparr>) BigEndian
      = Some (q2, Inl InvalidHeaderField) \<longrightarrow>
      ParseCCache H b = Some (zero_CCache\<lparr>Version := 4\<rparr>, Some InvalidHeaderField)) \<and>
   (elems b = 5 # 4 # rest \<and> read_int16 b 2 BigEndian = Some (n, q1) \<and>
    parse_header_loop b q1 (zero_header\<lparr>length_h := n\<rparr>) BigEndian = None \<longrightarrow>
      ParseCCache H b = None)"
proof (intro conjI impI)
  show "valid f \<longleftrightarrow> tag f = 1 \<and> length_f f = 8 \<and> length (value_f f) = 8"
    by (rule valid_iff)
next
  assume "p \<le> uint (length_h h) \<and> read_int16 b p e = Some (t, p1) \<and>
    read_int16 b p1 e = Some (l, p2) \<and> slice_expr b p2 (p2 + uint l) = Some v \<and>
    (t \<noteq> 1 \<or> l \<noteq> 8)"
  then show "parse_header_loop b p h e = Some (p2 + uint l, Inl InvalidHeaderField)"
    by (blast intro: parse_header_loop_invalid)
next
  assume "p \<le> uint (length_h h) \<and> read_int16 b p e = Some (t, p1) \<and>
    read_int16 b p1 e = Some (l, p2) \<and> slice_expr b p2 (p2 + uint l) = None"
  then show "parse_header_loop b p h e = None"
    by (blast intro: parse_header_loop_panic)
next
  assume "p \<le> uint (length_h h) \<and> read_int16 b p e = Some (1, p1) \<and>
    read_int16 b p1 e = Some (8, p2) \<and> slice_expr b p2 (p2 + 8) = Some v"
  then show "parse_header_loop b p h e =
        parse_header_loop b (p2 + 8)
          (h\<lparr>fields_h := fields_h h @ [\<lparr>tag = 1, length_f = 8, value_f = v\<rparr>]\<rparr>) e"
    by (blast intro: parse_header_loop_valid)
next
  assume "elems b = 5 # 4 # rest \<and> read_int16 b 2 BigEndian = Some (n, q1) \<and>
    parse_header_loop b q1 (zero_header\<lparr>length_h := n\<rparr>) BigEndian
      = Some (q2, Inl InvalidHeaderField)"
  then show "ParseCCache H b = Some (zero_CCache\<lparr>Version := 4\<rparr>, Some InvalidHeaderField)"
    by (simp add: ParseCCache_eq ParseCCache_body_def parse_header_def)
next
  assume "elems b = 5 # 4 # rest \<and> read_int16 b 2 BigEndian = Some (n, q1) \<and>
    parse_header_loop b q1 (zero_header\<lparr>length_h := n\<rparr>) BigEndian = None"
  then show "ParseCCache H b = None"
    by (simp add: ParseCCache_eq ParseCCache_body_def parse_header_def)
qed

theorem headerField_valid_witness:
  "valid \<lparr>tag = 1, length_f = 8, value_f = [0, 0, 0, 0, 0, 0, 0, 0]\<rparr> \<and>
   parse_header_loop (fresh [5, 4, 0, 12, 0, 1, 0, 7, 0, 0, 0, 0, 0, 0, 0]) 4
     (zero_header\<lparr>length_h := 12\<rparr>) BigEndian = Some (15, Inl InvalidHeaderField) \<and>
   parse_header_loop (fresh [5, 4, 0, 12, 0, 1, 0, 8, 0, 0, 0, 0, 0, 0, 0, 0]) 4
     (zero_header\<lparr>length_h := 12\<rparr>) BigEndian =
     parse_header_loop (fresh [5, 4, 0, 12, 0, 1, 0, 8, 0, 0, 0, 0, 0, 0, 0, 0]) 16
       (zero_header\<lparr>length_h := 12,
          fields_h := [\<lparr>tag = 1, length_f = 8, value_f = [0, 0, 0, 0, 0, 0, 0, 0]\<rparr>]\<rparr>)
       BigEndian \<and>
   ParseCCache mips (fresh [5, 4, 0, 12, 0, 1, 0, 7, 0, 0, 0, 0, 0, 0, 0]) =
     Some (zero_CCache\<lparr>Version := 4\<rparr>, Some InvalidHeaderField) \<and>
   parse_header_loop (fresh [5, 4, 0, 12, 0, 2, 0, 9, 0, 0, 0]) 4
     (zero_header\<lparr>length_h := 12\<rparr>) BigEndian = None \<and>
   ParseCCache mips (fresh [5, 4, 0, 12, 0, 2, 0, 9, 0, 0, 0]) = None"
proof -
  let ?bad = "fresh [5, 4, 0, 12, 0, 1, 0, 7, 0, 0, 0, 0, 0, 0, 0]"
  let ?cut = "fresh [5, 4, 0, 12, 0, 2, 0, 9, 0, 0, 0]"
  let ?good = "fresh [5, 4, 0, 12, 0, 1, 0, 8, 0, 0, 0, 0, 0, 0, 0, 0]"
  let ?h = "zero_header\<lparr>length_h := 12\<rparr>"
  have b0: "elems ?bad = 5 # 4 # [0, 12, 0, 1, 0, 7, 0, 0, 0, 0, 0, 0, 0]"
    and b1: "read_int16 ?bad 2 BigEndian = Some (12, 4)"
    and b2: "read_int16 ?bad 4 BigEndian = Some (1, 6)"
    and b3: "read_int16 ?bad 6 BigEndian = Some (7, 8)"
    and b4: "slice_expr ?bad 8 (8 + uint (7 :: 16 word)) = Some [0, 0, 0, 0, 0, 0, 0]"
    and g2: "read_int16 ?good 4 BigEndian = Some (1, 6)"
    and g3: "read_int16 ?good 6 BigEndian = Some (8, 8)"
    and g4: "slice_expr ?good 8 (8 + 8) = Some [0, 0, 0, 0, 0, 0, 0, 0]"
    and le: "4 \<le> uint (length_h ?h)"
    and c0: "elems ?cut = 5 # 4 # [0, 12, 0, 2, 0, 9, 0, 0, 0]"
    and c1: "read_int16 ?cut 2 BigEndian = Some (12, 4)"
    and c2: "read_int16 ?cut 4 BigEndian = Some (2, 6)"
    and c3: "read_int16 ?cut 6 BigEndian = Some (9, 8)"
    and c4: "slice_expr ?cut 8 (8 + uint (9 :: 16 word)) = None"
    by code_simp+
  from headerField_valid
    [of "\<lparr>tag = 1, length_f = 8, value_f = [0, 0, 0, 0, 0, 0, 0, 0]\<rparr>" 4 ?h ?cut BigEndian
      2 6 9 8 _ "[0, 12, 0, 2, 0, 9, 0, 0, 0]" 12 4 _ mips]
    c0 c1 c2 c3 c4 le
  have cut: "parse_header_loop ?cut 4 ?h BigEndian = None" "ParseCCache mips ?cut = None"
    by simp_all
  from headerField_valid
    [of "\<lparr>tag = 1, length_f = 8, value_f = [0, 0, 0, 0, 0, 0, 0, 0]\<rparr>" 4 ?h ?bad BigEndian
      1 6 7 8 "[0, 0, 0, 0, 0, 0, 0]" "[0, 12, 0, 1, 0, 7, 0, 0, 0, 0, 0, 0, 0]" 12 4 15 mips]
    b0 b1 b2 b3 b4 le
  have bad: "valid \<lparr>tag = 1, length_f = 8, value_f = [0, 0, 0, 0, 0, 0, 0, 0]\<rparr>"
    "parse_header_loop ?bad 4 ?h BigEndian = Some (15, Inl InvalidHeaderField)"
    "ParseCCache mips ?bad = Some (zero_CCache\<lparr>Version := 4\<rparr>, Some InvalidHeaderField)"
    by simp_all
  from headerField_valid
    [of "\<lparr>tag = 1, length_f = 8, value_f = [0, 0, 0, 0, 0, 0, 0, 0]\<rparr>" 4 ?h ?good BigEndian
      1 6 8 8 "[0, 0, 0, 0, 0, 0, 0, 0]"]
    g2 g3 g4 le
  have good: "parse_header_loop ?good 4 ?h BigEndian =
     parse_header_loop ?good 16
       (?h\<lparr>fields_h := [\<lparr>tag = 1, length_f = 8, value_f = [0, 0, 0, 0, 0, 0, 0, 0]\<rparr>]\<rparr>)
       BigEndian"
    by (simp add: zero_header_def)
  from bad good cut show ?thesis
    by simp
qed

text \<open>
  The claim as it stands fails at a field with another tag whose declared length
  reaches beyond the buffer: tag 2 and length 9 with three bytes left.
\<close>

theorem headerField_beyond_buffer_counterexample:
  "read_int16 (fresh [5, 4, 0, 12, 0, 2, 0, 9, 0, 0, 0]) 4 BigEndian = Some (2, 6) \<and>
   read_int16 (fresh [5, 4, 0, 12, 0, 2, 0, 9, 0, 0, 0]) 6 BigEndian = Some (9, 8) \<and>
   ParseCCache amd64 (fresh [5, 4, 0, 12, 0, 2, 0, 9, 0, 0, 0]) = None"
  by code_simp

subsection \<open>The bound of the header loop\<close>

lemma parse_header_loop_result:
  "parse_header_loop b p h e = Some (p', Inr h') \<Longrightarrow>
     length_h h' = length_h h \<and> uint (length_h h) < p' \<and> p \<le> p' \<and>
     (\<exists>fs. fields_h h' = fields_h h @ fs \<and> (p \<le> uint (length_h h) \<longrightarrow> fs \<noteq> []))"
proof (induction b p h e rule: parse_header_loop.induct)
  case (1 b p h e)
  show ?case
  proof (cases "p \<le> uint (length_h h)")
    case True
    from True "1.prems" show ?thesis
    proof (rule parse_header_loop_unfold)
      fix t p1 l p2 v
      let ?f = "\<lparr>tag = t, length_f = l, value_f = v\<rparr>"
      let ?h = "h\<lparr>fields_h := fields_h h @ [?f]\<rparr>"
      assume r: "read_int16 b p e = Some (t, p1)" "read_int16 b p1 e = Some (l, p2)"
        "slice_expr b p2 (p2 + uint l) = Some v"
        and bad: "\<not> valid ?f \<Longrightarrow> (p', Inr h') = (p2 + uint l, Inl InvalidHeaderField)"
        and good: "valid ?f \<Longrightarrow> parse_header_loop b (p2 + uint l) ?h e = Some (p', Inr h')"
      from bad have ok: "valid ?f"
        by auto
      from "1.IH" [OF True r(1) refl r(2) refl r(3) refl refl _ good [OF ok]] ok
      have ih: "length_h h' = length_h ?h" "uint (length_h ?h) < p'" "p2 + uint l \<le> p'"
        and "\<exists>fs. fields_h h' = fields_h ?h @ fs"
        by auto
      then obtain fs where "fields_h h' = fields_h h @ ?f # fs"
        by auto
      moreover have "p \<le> p2 + uint l"
        using read_int16_cursor [OF r(1)] read_int16_cursor [OF r(2)] by simp
      ultimately show ?thesis
        using ih by auto
    qed
  next
    case False
    with "1.prems" show ?thesis
      by (simp add: parse_header_loop_stop)
  qed
qed

text \<open>
  C6. The loop of \<open>parse_header\<close> goes on while the cursor is less than or equal to the
  declared length. With the cursor at most the declared length, and so with the cursor
  exactly on it, a loop that ends without an error has read at least one more field and
  ends strictly beyond the declared length; with the cursor beyond it the loop stops at
  once; with the cursor exactly on it the loop does not stop there.
\<close>

theorem parse_header_loop_bound:
  "(p \<le> uint (length_h h) \<and> parse_header_loop b p h e = Some (p', Inr h') \<longrightarrow>
      (\<exists>f fs. fields_h h' = fields_h h @ f # fs) \<and> uint (length_h h) < p') \<and>
   (uint (length_h h) < p \<longrightarrow> parse_header_loop b p h e = Some (p, Inr h)) \<and>
   (p = uint (length_h h) \<longrightarrow> parse_header_loop b p h e \<noteq> Some (p, Inr h))"
proof (intro conjI impI)
  assume a: "p \<le> uint (length_h h) \<and> parse_header_loop b p h e = Some (p', Inr h')"
  then obtain fs where "fields_h h' = fields_h h @ fs" "fs \<noteq> []"
    using parse_header_loop_result [of b p h e p' h'] by auto
  then show "\<exists>f fs. fields_h h' = fields_h h @ f # fs"
    by (cases fs) auto
  from a show "uint (length_h h) < p'"
    using parse_header_loop_result [of b p h e p' h'] by auto
next
  assume "uint (length_h h) < p"
  then show "parse_header_loop b p h e = Some (p, Inr h)"
    by (simp add: parse_header_loop_stop)
next
  assume "p = uint (length_h h)"
  then show "parse_header_loop b p h e \<noteq> Some (p, Inr h)"
    using parse_header_loop_result [of b p h e p h] by auto
qed

text \<open>
  A header of declared length 16. The first field ends at offset 16, on the declared
  length, and the loop reads the twelve bytes after it as a second field.
\<close>

definition two_fields :: "byte list" where
  "two_fields = [5, 4, 0, 16, 0, 1, 0, 8, 0, 0, 0, 0, 0, 0, 0, 0,
      0, 1, 0, 8, 1, 1, 1, 1, 1, 1, 1, 1]"

theorem parse_header_loop_bound_witness:
  "parse_header_loop (fresh two_fields) 16
     \<lparr>length_h = 16, fields_h = [\<lparr>tag = 1, length_f = 8, value_f = [0, 0, 0, 0, 0, 0, 0, 0]\<rparr>]\<rparr>
     BigEndian =
     Some (28, Inr \<lparr>length_h = 16, fields_h =
       [\<lparr>tag = 1, length_f = 8, value_f = [0, 0, 0, 0, 0, 0, 0, 0]\<rparr>,
        \<lparr>tag = 1, length_f = 8, value_f = [1, 1, 1, 1, 1, 1, 1, 1]\<rparr>]\<rparr>) \<and>
   (16 :: int) < 28 \<and>
   parse_header_loop (fresh two_fields) 17
     \<lparr>length_h = 16, fields_h = [\<lparr>tag = 1, length_f = 8, value_f = [0, 0, 0, 0, 0, 0, 0, 0]\<rparr>]\<rparr>
     BigEndian =
     Some (17, Inr \<lparr>length_h = 16, fields_h =
       [\<lparr>tag = 1, length_f = 8, value_f = [0, 0, 0, 0, 0, 0, 0, 0]\<rparr>]\<rparr>) \<and>
   parse_header_loop (fresh two_fields) 16
     \<lparr>length_h = 16, fields_h = [\<lparr>tag = 1, length_f = 8, value_f = [0, 0, 0, 0, 0, 0, 0, 0]\<rparr>]\<rparr>
     BigEndian \<noteq>
     Some (16, Inr \<lparr>length_h = 16, fields_h =
       [\<lparr>tag = 1, length_f = 8, value_f = [0, 0, 0, 0, 0, 0, 0, 0]\<rparr>]\<rparr>)"
proof -
  let ?h1 = "\<lparr>length_h = 16, fields_h =
    [\<lparr>tag = 1, length_f = 8, value_f = [0, 0, 0, 0, 0, 0, 0, 0]\<rparr>]\<rparr>"
  let ?h2 = "\<lparr>length_h = 16, fields_h =
       [\<lparr>tag = 1, length_f = 8, value_f = [0, 0, 0, 0, 0, 0, 0, 0]\<rparr>,
        \<lparr>tag = 1, length_f = 8, value_f = [1, 1, 1, 1, 1, 1, 1, 1]\<rparr>]\<rparr>"
  have run: "parse_header_loop (fresh two_fields) 16 ?h1 BigEndian = Some (28, Inr ?h2)"
    by code_simp
  from parse_header_loop_bound [of 16 ?h1 "fresh two_fields" BigEndian 28 ?h2] run
    parse_header_loop_bound [of 17 ?h1 "fresh two_fields" BigEndian 28 ?h2]
  show ?thesis
    by simp
qed

subsection \<open>Declared header lengths below 4\<close>

lemma zero_header_length: "zero_header\<lparr>length_h := l\<rparr> = \<lparr>length_h = l, fields_h = []\<rparr>"
  by (simp add: zero_header_def)

lemma parse_header_short:
  assumes "Version c = 4" and "read_int16 b p e = Some (l, p')" and "uint l < p'"
  shows "parse_header b p c e = Some (p', c\<lparr>Header := \<lparr>length_h = l, fields_h = []\<rparr>\<rparr>, None)"
  using assms by (simp add: parse_header_def parse_header_loop_stop zero_header_length)

lemma read_int16_at_2:
  "elems b = v # w # x # y # rest \<Longrightarrow> read_int16 b 2 e = Some (Uint16 e [x, y], 4)"
  by (simp add: read_int16_def slice_expr_def array_def numeral_2_eq_2)

text \<open>
  C10. The loop of \<open>parse_header\<close> compares the declared length with the cursor, an
  offset from the start of the buffer: a declared length below the cursor after the
  length field gives a header with no fields. \<open>ParseCCache\<close> calls \<open>parse_header\<close> with
  the cursor at 2, so that cursor is 4: for a version-4 buffer whose declared length is
  below 4 the header is decoded with no fields and no error, and decoding goes on with
  the default principal at offset 4.
\<close>

theorem parse_header_short_length:
  "(Version c = 4 \<and> read_int16 b p e = Some (l, p') \<and> uint l < p' \<longrightarrow>
      parse_header b p c e = Some (p', c\<lparr>Header := \<lparr>length_h = l, fields_h = []\<rparr>\<rparr>, None)) \<and>
   (elems b = 5 # 4 # x # y # rest \<and> uint (Uint16 BigEndian [x, y]) < 4 \<longrightarrow>
      parse_header b 2 (zero_CCache\<lparr>Version := 4\<rparr>) BigEndian =
        Some (4, zero_CCache\<lparr>Version := 4,
          Header := \<lparr>length_h = Uint16 BigEndian [x, y], fields_h = []\<rparr>\<rparr>, None) \<and>
      ParseCCache H b = do {
        (princ, p) \<leftarrow> parse_principal H b 4
          (zero_CCache\<lparr>Version := 4,
             Header := \<lparr>length_h = Uint16 BigEndian [x, y], fields_h = []\<rparr>\<rparr>) BigEndian;
        ParseCCache_loop H b p
          (zero_CCache\<lparr>Version := 4,
             Header := \<lparr>length_h = Uint16 BigEndian [x, y], fields_h = []\<rparr>,
             DefaultPrincipal := princ\<rparr>) BigEndian
      })"
proof (intro conjI impI)
  assume "Version c = 4 \<and> read_int16 b p e = Some (l, p') \<and> uint l < p'"
  then show "parse_header b p c e =
      Some (p', c\<lparr>Header := \<lparr>length_h = l, fields_h = []\<rparr>\<rparr>, None)"
    by (blast intro: parse_header_short)
next
  let ?c = "zero_CCache\<lparr>Version := 4\<rparr>"
  assume a: "elems b = 5 # 4 # x # y # rest \<and> uint (Uint16 BigEndian [x, y]) < 4"
  then have r: "read_int16 b 2 BigEndian = Some (Uint16 BigEndian [x, y], 4)"
    by (simp add: read_int16_at_2)
  from a have "uint (Uint16 BigEndian [x, y]) < 4"
    by simp
  from parse_header_short [OF _ r this, of ?c]
  show h: "parse_header b 2 ?c BigEndian =
      Some (4, zero_CCache\<lparr>Version := 4,
        Header := \<lparr>length_h = Uint16 BigEndian [x, y], fields_h = []\<rparr>\<rparr>, None)"
    by simp
  from a h show "ParseCCache H b = do {
        (princ, p) \<leftarrow> parse_principal H b 4
          (zero_CCache\<lparr>Version := 4,
             Header := \<lparr>length_h = Uint16 BigEndian [x, y], fields_h = []\<rparr>\<rparr>) BigEndian;
        ParseCCache_loop H b p
          (zero_CCache\<lparr>Version := 4,
             Header := \<lparr>length_h = Uint16 BigEndian [x, y], fields_h = []\<rparr>,
             DefaultPrincipal := princ\<rparr>) BigEndian
      }"
    by (simp add: ParseCCache_eq ParseCCache_body_def)
qed

theorem parse_header_short_length_witness:
  "parse_header (fresh [5, 4, 0, 3, 0, 0, 0, 1, 0, 0, 0, 0, 0, 0, 0, 0]) 2
     (zero_CCache\<lparr>Version := 4\<rparr>) BigEndian =
     Some (4, zero_CCache\<lparr>Version := 4, Header := \<lparr>length_h = 3, fields_h = []\<rparr>\<rparr>, None) \<and>
   ParseCCache amd64 (fresh [5, 4, 0, 3, 0, 0, 0, 1, 0, 0, 0, 0, 0, 0, 0, 0]) =
     Some (zero_CCache\<lparr>Version := 4, Header := \<lparr>length_h = 3, fields_h = []\<rparr>,
       DefaultPrincipal := \<lparr>Realm = [], PrincipalName = \<lparr>NameType = 1, NameString = []\<rparr>\<rparr>\<rparr>,
       None)"
proof -
  let ?b = "fresh [5, 4, 0, 3, 0, 0, 0, 1, 0, 0, 0, 0, 0, 0, 0, 0]"
  let ?c = "zero_CCache\<lparr>Version := 4, Header := \<lparr>length_h = 3, fields_h = []\<rparr>\<rparr>"
  have e: "elems ?b = 5 # 4 # 0 # 3 # [0, 0, 0, 1, 0, 0, 0, 0, 0, 0, 0, 0]"
    and u: "Uint16 BigEndian [0, 3] = 3"
    and r: "read_int16 ?b 2 BigEndian = Some (3, 4)"
    by code_simp+
  have rest: "do {
        (princ, p) \<leftarrow> parse_principal amd64 ?b 4 ?c BigEndian;
        ParseCCache_loop amd64 ?b p (?c\<lparr>DefaultPrincipal := princ\<rparr>) BigEndian
      } = Some (?c\<lparr>DefaultPrincipal :=
          \<lparr>Realm = [], PrincipalName = \<lparr>NameType = 1, NameString = []\<rparr>\<rparr>\<rparr>, None)"
    by code_simp
  from parse_header_short_length
    [of "zero_CCache\<lparr>Version := 4\<rparr>" ?b 2 BigEndian 3 4 0 3
      "[0, 0, 0, 1, 0, 0, 0, 0, 0, 0, 0, 0]" amd64] e u r rest
  show ?thesis
    by simp
qed

subsection \<open>Queries and configuration entries\<close>

lemma HasPrefix_prefix: "HasPrefix s pre \<longleftrightarrow> prefix pre s"
proof
  assume "HasPrefix s pre"
  then have "s = pre @ drop (length pre) s"
    by (metis HasPrefix_def append_take_drop_id)
  then show "prefix pre s"
    by (rule prefixI)
next
  assume "prefix pre s"
  then show "HasPrefix s pre"
    by (auto simp: HasPrefix_def prefix_def)
qed

lemma GetEntries_loop_filter:
  "GetEntries_loop cs acc =
     acc @ filter (\<lambda>cred. \<not> prefix ''X-CACHECONF'' (Realm (Server cred))) cs"
  by (induction cs arbitrary: acc) (simp_all add: HasPrefix_prefix)

lemma Contains_loop_iff:
  "Contains_loop Equal cs p \<longleftrightarrow> (\<exists>cred \<in> set cs. Equal (PrincipalName (Server cred)) p)"
  by (induction cs) simp_all

lemma GetEntry_loop_find:
  "GetEntry_loop Equal cs p =
     (case find (\<lambda>cred. Equal (PrincipalName (Server cred)) p) cs of
        None \<Rightarrow> (zero_credential, False)
      | Some cred \<Rightarrow> (cred, True))"
  by (induction cs) simp_all

text \<open>
  C9. \<open>GetEntries\<close> returns the credentials whose server realm does not start with
  \<open>X-CACHECONF\<close>, in the order of the cache, and none that does. \<open>Contains\<close> and
  \<open>GetEntry\<close> look through all credentials of the cache, configuration entries
  included: \<open>Contains\<close> holds when some credential's server name equals the name
  asked for, and \<open>GetEntry\<close> returns the first such credential.
\<close>

theorem GetEntries_filter:
  "GetEntries c =
     filter (\<lambda>cred. \<not> prefix ''X-CACHECONF'' (Realm (Server cred))) (Credentials c) \<and>
   subseq (GetEntries c) (Credentials c) \<and>
   (\<forall>cred \<in> set (GetEntries c). \<not> prefix ''X-CACHECONF'' (Realm (Server cred))) \<and>
   (Contains Equal c p \<longleftrightarrow>
      (\<exists>cred \<in> set (Credentials c). Equal (PrincipalName (Server cred)) p)) \<and>
   GetEntry Equal c p =
     (case find (\<lambda>cred. Equal (PrincipalName (Server cred)) p) (Credentials c) of
        None \<Rightarrow> (zero_credential, False)
      | Some cred \<Rightarrow> (cred, True))"
proof -
  have "GetEntries c =
      filter (\<lambda>cred. \<not> prefix ''X-CACHECONF'' (Realm (Server cred))) (Credentials c)"
    by (simp add: GetEntries_def GetEntries_loop_filter)
  moreover have "Contains Equal c p \<longleftrightarrow>
      (\<exists>cred \<in> set (Credentials c). Equal (PrincipalName (Server cred)) p)"
    by (simp add: Contains_def Contains_loop_iff)
  moreover have "GetEntry Equal c p =
     (case find (\<lambda>cred. Equal (PrincipalName (Server cred)) p) (Credentials c) of
        None \<Rightarrow> (zero_credential, False)
      | Some cred \<Rightarrow> (cred, True))"
    by (simp add: GetEntry_def GetEntry_loop_find split: option.splits)
  ultimately show ?thesis
    by simp
qed

text \<open>A cache with a ticket between two configuration entries.\<close>

definition conf_entry :: credential where
  "conf_entry = zero_credential\<lparr>Server :=
     \<lparr>Realm = ''X-CACHECONF:'',
      PrincipalName = \<lparr>NameType = 0, NameString = [''krb5_ccache_conf_data'']\<rparr>\<rparr>\<rparr>"

definition ticket_entry :: credential where
  "ticket_entry = zero_credential\<lparr>Server :=
     \<lparr>Realm = ''TEST'', PrincipalName = \<lparr>NameType = 2, NameString = [''krbtgt'', ''TEST'']\<rparr>\<rparr>\<rparr>"

theorem GetEntries_filter_witness:
  "GetEntries (zero_CCache\<lparr>Credentials := [conf_entry, ticket_entry, conf_entry]\<rparr>) =
     [ticket_entry] \<and>
   Contains (=) (zero_CCache\<lparr>Credentials := [conf_entry, ticket_entry, conf_entry]\<rparr>)
     \<lparr>NameType = 0, NameString = [''krb5_ccache_conf_data'']\<rparr> \<and>
   GetEntry (=) (zero_CCache\<lparr>Credentials := [conf_entry, ticket_entry, conf_entry]\<rparr>)
     \<lparr>NameType = 0, NameString = [''krb5_ccache_conf_data'']\<rparr> = (conf_entry, True)"
  using GetEntries_filter
    [of "zero_CCache\<lparr>Credentials := [conf_entry, ticket_entry, conf_entry]\<rparr>" "(=)"
      "\<lparr>NameType = 0, NameString = [''krb5_ccache_conf_data'']\<rparr>"]
  by (simp add: conf_entry_def ticket_entry_def zero_credential_def zero_CCache_def)

subsection \<open>Byte order\<close>


















subsection \<open>Principals of version 1 and of later versions\<close>

lemma sint32_bounds: "- 2147483648 \<le> sint (n :: 32 word) \<and> sint n < 2147483648"
  using sint_ge [of n] sint_lt [of n] by simp

lemma sint_word_of_int_32:
  "- 2147483648 \<le> x \<Longrightarrow> x < 2147483648 \<Longrightarrow> sint (word_of_int x :: 32 word) = x"
  by (simp add: sint_sbintrunc' signed_take_bit_int_eq_self)

lemma sint_word_of_int_64:
  "- 9223372036854775808 \<le> x \<Longrightarrow> x < 9223372036854775808 \<Longrightarrow>
     sint (word_of_int x :: 64 word) = x"
  by (simp add: sint_sbintrunc' signed_take_bit_int_eq_self)

lemma go_int_decrement:
  "go_int H (sint (n :: 32 word) - 1) =
     (if int_size H = Int32 \<and> sint n = - 2147483648 then 2147483647 else sint n - 1)"
proof (cases "int_size H")
  case Int32
  show ?thesis
  proof (cases "sint n = - 2147483648")
    case True
    with Int32 show ?thesis
      by (simp add: go_int_def)
  next
    case False
    with sint32_bounds [of n] have "- 2147483648 \<le> sint n - 1" "sint n - 1 < 2147483648"
      by simp_all
    then have "sint (word_of_int (sint n - 1) :: 32 word) = sint n - 1"
      by (rule sint_word_of_int_32)
    with Int32 False show ?thesis
      by (simp add: go_int_def)
  qed
next
  case Int64
  from sint32_bounds [of n]
  have "- 9223372036854775808 \<le> sint n - 1" "sint n - 1 < 9223372036854775808"
    by simp_all
  then have "sint (word_of_int (sint n - 1) :: 64 word) = sint n - 1"
    by (rule sint_word_of_int_64)
  with Int64 show ?thesis
    by (simp add: go_int_def)
qed

lemma parse_principal_loop_length:
  "parse_principal_loop b p e i nc ns = Some (ns', p') \<Longrightarrow>
     int (length ns') = int (length ns) + max 0 (nc - i)"
proof (induction b p e i nc ns rule: parse_principal_loop.induct)
  case (1 b p e i nc ns)
  show ?case
  proof (cases "i < nc")
    case True
    with "1.prems" obtain l p1 s p2 where
      r1: "read_int32 b p e = Some (l, p1)" and
      r2: "read_Bytes b p1 (sint l) e = Some (s, p2)" and
      r3: "parse_principal_loop b p2 e (i + 1) nc (ns @ [string_of_bytes s]) = Some (ns', p')"
      by (subst (asm) parse_principal_loop.simps) (auto split: bind_splits)
    from "1.IH" [OF True r1 refl r2 refl r3] True show ?thesis
      by simp
  next
    case False
    with "1.prems" show ?thesis
      by (subst (asm) parse_principal_loop.simps) simp
  qed
qed

lemma parse_principal_version_1:
  assumes "Version c = 1" and "parse_principal H b p c e = Some (princ, p')"
  shows "\<exists>n lr r q. read_int32 b p e = Some (n, p + 4) \<and>
    read_int32 b (p + 4) e = Some (lr, p + 8) \<and>
    read_Bytes b (p + 8) (sint lr) e = Some (r, q) \<and>
    Realm princ = string_of_bytes r \<and> NameType (PrincipalName princ) = 0 \<and>
    int (length (NameString (PrincipalName princ))) = max 0 (go_int H (sint n - 1))"
proof -
  from assms obtain n p1 lr p2 r p3 ns where
    r1: "read_int32 b p e = Some (n, p1)" and
    r2: "read_int32 b p1 e = Some (lr, p2)" and
    r3: "read_Bytes b p2 (sint lr) e = Some (r, p3)" and
    r4: "parse_principal_loop b p3 e 0 (go_int H (sint n - 1)) [] = Some (ns, p')" and
    pr: "princ = \<lparr>Realm = string_of_bytes r, PrincipalName = \<lparr>NameType = 0, NameString = ns\<rparr>\<rparr>"
    by (auto simp: parse_principal_def Let_def zero_principal_def split: bind_splits)
  from read_int32_cursor [OF r1] read_int32_cursor [OF r2]
  have "p1 = p + 4" "p2 = p + 8"
    by simp_all
  with r1 r2 r3 pr parse_principal_loop_length [OF r4] show ?thesis
    by auto
qed

lemma parse_principal_version_2:
  assumes "Version c \<noteq> 1" and "parse_principal H b p c e = Some (princ, p')"
  shows "\<exists>t n lr r q. read_int32 b p e = Some (t, p + 4) \<and>
    read_int32 b (p + 4) e = Some (n, p + 8) \<and>
    read_int32 b (p + 8) e = Some (lr, p + 12) \<and>
    read_Bytes b (p + 12) (sint lr) e = Some (r, q) \<and>
    Realm princ = string_of_bytes r \<and> NameType (PrincipalName princ) = sint t \<and>
    int (length (NameString (PrincipalName princ))) = max 0 (sint n)"
proof -
  from assms obtain t p0 n p1 lr p2 r p3 ns where
    r0: "read_int32 b p e = Some (t, p0)" and
    r1: "read_int32 b p0 e = Some (n, p1)" and
    r2: "read_int32 b p1 e = Some (lr, p2)" and
    r3: "read_Bytes b p2 (sint lr) e = Some (r, p3)" and
    r4: "parse_principal_loop b p3 e 0 (sint n) [] = Some (ns, p')" and
    pr: "princ = \<lparr>Realm = string_of_bytes r,
      PrincipalName = \<lparr>NameType = sint t, NameString = ns\<rparr>\<rparr>"
    by (auto simp: parse_principal_def Let_def zero_principal_def split: bind_splits)
  from read_int32_cursor [OF r0] read_int32_cursor [OF r1] read_int32_cursor [OF r2]
  have "p0 = p + 4" "p1 = p + 8" "p2 = p + 12"
    by simp_all
  with r0 r1 r2 r3 pr parse_principal_loop_length [OF r4] show ?thesis
    by auto
qed

text \<open>
  The version-1 encoding of the principal with realm \<open>TEST\<close> and the one component
  \<open>host\<close>: no name type, the count 2, then the two strings with their lengths. The
  integers are in the machine's byte order.
\<close>

definition host_TEST_le :: "byte list" where
  "host_TEST_le = [2, 0, 0, 0, 4, 0, 0, 0, 0x54, 0x45, 0x53, 0x54,
     4, 0, 0, 0, 0x68, 0x6f, 0x73, 0x74]"

definition host_TEST_be :: "byte list" where
  "host_TEST_be = [0, 0, 0, 2, 0, 0, 0, 4, 0x54, 0x45, 0x53, 0x54,
     0, 0, 0, 4, 0x68, 0x6f, 0x73, 0x74]"

definition host_TEST :: principal where
  "host_TEST = \<lparr>Realm = ''TEST'', PrincipalName = \<lparr>NameType = 0, NameString = [''host'']\<rparr>\<rparr>"

text \<open>
  A version-1 principal whose count is the least 32-bit integer, in little-endian order,
  with an empty realm, as the default principal of a cache.
\<close>

definition least_count :: "byte list" where
  "least_count = [5, 1, 0, 0, 0, 0x80, 0, 0, 0, 0]"

lemma host_TEST_decodes:
  "parse_principal amd64 (fresh host_TEST_le) 0 (zero_CCache\<lparr>Version := 1\<rparr>) LittleEndian
     = Some (host_TEST, 20)"
  "parse_principal mips (fresh host_TEST_be) 0 (zero_CCache\<lparr>Version := 1\<rparr>) BigEndian
     = Some (host_TEST, 20)"
  "ParseCCache amd64 (fresh (5 # 1 # host_TEST_le))
     = Some (zero_CCache\<lparr>Version := 1, DefaultPrincipal := host_TEST\<rparr>, None)"
  "ParseCCache i386 (fresh (5 # 1 # host_TEST_le))
     = Some (zero_CCache\<lparr>Version := 1, DefaultPrincipal := host_TEST\<rparr>, None)"
  "ParseCCache s390x (fresh (5 # 1 # host_TEST_be))
     = Some (zero_CCache\<lparr>Version := 1, DefaultPrincipal := host_TEST\<rparr>, None)"
  "ParseCCache mips (fresh (5 # 1 # host_TEST_be))
     = Some (zero_CCache\<lparr>Version := 1, DefaultPrincipal := host_TEST\<rparr>, None)"
  "ParseCCache amd64 (fresh least_count) = Some (zero_CCache\<lparr>Version := 1\<rparr>, None)"
  "ParseCCache i386 (fresh least_count) = None"
  by code_simp+

text \<open>
  C4. For version 1 \<open>parse_principal\<close> reads no name type: the first 32-bit integer at
  the cursor is the component count, the name type stays zero, and the count is
  decremented by one before the components are read: the principal has as many
  components as the decremented count says (none when it is below one). The decrement
  is Go's \<open>nc--\<close> on an \<open>int\<close>: one less than the count, except that on a machine with a
  32-bit \<open>int\<close> the least 32-bit count wraps around to the greatest. For any other
  version the first integer is the name type, the second the count, and the principal
  has as many components as the count says. In both, the realm length and the realm
  follow. The version-1 encoding of realm \<open>TEST\<close> with the one component \<open>host\<close> decodes
  to the principal with realm \<open>TEST\<close> and exactly the one component \<open>host\<close>, in either
  byte order and with either width of \<open>int\<close>, alone and as the default principal of a
  cache. The cache \<open>least_count\<close> decodes on a 64-bit machine to a principal without
  components; on a 32-bit machine the count wraps and the decoder panics.
\<close>

theorem parse_principal_version:
  "(Version c = 1 \<and> parse_principal H b p c e = Some (princ, p') \<longrightarrow>
     (\<exists>n lr r q. read_int32 b p e = Some (n, p + 4) \<and>
        read_int32 b (p + 4) e = Some (lr, p + 8) \<and>
        read_Bytes b (p + 8) (sint lr) e = Some (r, q) \<and>
        Realm princ = string_of_bytes r \<and> NameType (PrincipalName princ) = 0 \<and>
        int (length (NameString (PrincipalName princ))) = max 0 (go_int H (sint n - 1)))) \<and>
   go_int H (sint (m :: 32 word) - 1) =
     (if int_size H = Int32 \<and> sint m = - 2147483648 then 2147483647 else sint m - 1) \<and>
   (Version c \<noteq> 1 \<and> parse_principal H b p c e = Some (princ, p') \<longrightarrow>
     (\<exists>t n lr r q. read_int32 b p e = Some (t, p + 4) \<and>
        read_int32 b (p + 4) e = Some (n, p + 8) \<and>
        read_int32 b (p + 8) e = Some (lr, p + 12) \<and>
        read_Bytes b (p + 12) (sint lr) e = Some (r, q) \<and>
        Realm princ = string_of_bytes r \<and> NameType (PrincipalName princ) = sint t \<and>
        int (length (NameString (PrincipalName princ))) = max 0 (sint n))) \<and>
   parse_principal amd64 (fresh host_TEST_le) 0 (zero_CCache\<lparr>Version := 1\<rparr>) LittleEndian
     = Some (host_TEST, 20) \<and>
   parse_principal mips (fresh host_TEST_be) 0 (zero_CCache\<lparr>Version := 1\<rparr>) BigEndian
     = Some (host_TEST, 20) \<and>
   ParseCCache amd64 (fresh (5 # 1 # host_TEST_le))
     = Some (zero_CCache\<lparr>Version := 1, DefaultPrincipal := host_TEST\<rparr>, None) \<and>
   ParseCCache i386 (fresh (5 # 1 # host_TEST_le))
     = Some (zero_CCache\<lparr>Version := 1, DefaultPrincipal := host_TEST\<rparr>, None) \<and>
   ParseCCache s390x (fresh (5 # 1 # host_TEST_be))
     = Some (zero_CCache\<lparr>Version := 1, DefaultPrincipal := host_TEST\<rparr>, None) \<and>
   ParseCCache mips (fresh (5 # 1 # host_TEST_be))
     = Some (zero_CCache\<lparr>Version := 1, DefaultPrincipal := host_TEST\<rparr>, None) \<and>
   ParseCCache amd64 (fresh least_count) = Some (zero_CCache\<lparr>Version := 1\<rparr>, None) \<and>
   ParseCCache i386 (fresh least_count) = None"
  using parse_principal_version_1 [of c H b p e princ p']
    parse_principal_version_2 [of c H b p e princ p'] go_int_decrement [of H m]
    host_TEST_decodes
  by blast

text \<open>A principal as versions 2 to 4 encode it: name type 2, count 1.\<close>

definition krbtgt_be :: "byte list" where
  "krbtgt_be = [0, 0, 0, 2, 0, 0, 0, 1, 0, 0, 0, 4, 0x54, 0x45, 0x53, 0x54,
     0, 0, 0, 4, 0x68, 0x6f, 0x73, 0x74]"

theorem parse_principal_version_witness:
  "parse_principal amd64 (fresh host_TEST_le) 0 (zero_CCache\<lparr>Version := 1\<rparr>) LittleEndian
     = Some (host_TEST, 20) \<and>
   read_int32 (fresh host_TEST_le) 0 LittleEndian = Some (2, 4) \<and>
   Realm host_TEST = string_of_bytes [0x54, 0x45, 0x53, 0x54] \<and>
   NameType (PrincipalName host_TEST) = 0 \<and>
   int (length (NameString (PrincipalName host_TEST))) = max 0 (go_int amd64 (sint (2 :: 32 word) - 1)) \<and>
   go_int amd64 (sint (2 :: 32 word) - 1) = 1 \<and>
   go_int i386 (sint (0x80000000 :: 32 word) - 1) = 2147483647 \<and>
   go_int amd64 (sint (0x80000000 :: 32 word) - 1) = - 2147483649 \<and>
   parse_principal mips (fresh krbtgt_be) 0 (zero_CCache\<lparr>Version := 2\<rparr>) BigEndian
     = Some (\<lparr>Realm = ''TEST'', PrincipalName = \<lparr>NameType = 2, NameString = [''host'']\<rparr>\<rparr>, 24) \<and>
   read_int32 (fresh krbtgt_be) 0 BigEndian = Some (2, 4) \<and>
   read_int32 (fresh krbtgt_be) 4 BigEndian = Some (1, 8) \<and>
   NameType (PrincipalName
     \<lparr>Realm = ''TEST'', PrincipalName = \<lparr>NameType = 2, NameString = [''host'']\<rparr>\<rparr>)
     = sint (2 :: 32 word) \<and>
   int (length (NameString (PrincipalName
     \<lparr>Realm = ''TEST'', PrincipalName = \<lparr>NameType = 2, NameString = [''host'']\<rparr>\<rparr>)))
     = max 0 (sint (1 :: 32 word))"
proof -
  let ?c1 = "zero_CCache\<lparr>Version := 1\<rparr>" and ?c2 = "zero_CCache\<lparr>Version := 2\<rparr>"
  let ?p2 = "\<lparr>Realm = ''TEST'', PrincipalName = \<lparr>NameType = 2, NameString = [''host'']\<rparr>\<rparr>"
  have v: "Version ?c1 = 1" "Version ?c2 \<noteq> 1"
    by simp_all
  have h1: "parse_principal amd64 (fresh host_TEST_le) 0 ?c1 LittleEndian = Some (host_TEST, 20)"
    and r1: "read_int32 (fresh host_TEST_le) 0 LittleEndian = Some (2, 4)"
      "read_int32 (fresh host_TEST_le) 4 LittleEndian = Some (4, 8)"
      "read_Bytes (fresh host_TEST_le) 8 (sint (4 :: 32 word)) LittleEndian
        = Some ([0x54, 0x45, 0x53, 0x54], 12)"
    and h2: "parse_principal mips (fresh krbtgt_be) 0 ?c2 BigEndian = Some (?p2, 24)"
    and r2: "read_int32 (fresh krbtgt_be) 0 BigEndian = Some (2, 4)"
      "read_int32 (fresh krbtgt_be) 4 BigEndian = Some (1, 8)"
      "read_int32 (fresh krbtgt_be) 8 BigEndian = Some (4, 12)"
      "read_Bytes (fresh krbtgt_be) 12 (sint (4 :: 32 word)) BigEndian
        = Some ([0x54, 0x45, 0x53, 0x54], 16)"
    by code_simp+
  from parse_principal_version [of ?c1 amd64 "fresh host_TEST_le" 0 LittleEndian host_TEST 20] v h1 r1
  have a: "Realm host_TEST = string_of_bytes [0x54, 0x45, 0x53, 0x54]"
    "NameType (PrincipalName host_TEST) = 0"
    "int (length (NameString (PrincipalName host_TEST))) = max 0 (go_int amd64 (sint (2 :: 32 word) - 1))"
    by auto
  from parse_principal_version [of ?c2 mips "fresh krbtgt_be" 0 BigEndian ?p2 24] v h2 r2
  have b: "NameType (PrincipalName ?p2) = sint (2 :: 32 word)"
    "int (length (NameString (PrincipalName ?p2))) = max 0 (sint (1 :: 32 word))"
    by auto
  have s: "sint (2 :: 32 word) = 2" "sint (0x80000000 :: 32 word) = - 2147483648"
    "int_size amd64 = Int64" "int_size i386 = Int32"
    by (simp_all add: amd64_def i386_def)
  from parse_principal_version [where H = amd64 and m = 2]
    parse_principal_version [where H = i386 and m = "0x80000000"]
    parse_principal_version [where H = amd64 and m = "0x80000000"] s
  have w: "go_int amd64 (sint (2 :: 32 word) - 1) = 1"
    "go_int i386 (sint (0x80000000 :: 32 word) - 1) = 2147483647"
    "go_int amd64 (sint (0x80000000 :: 32 word) - 1) = - 2147483649"
    by simp_all
  from h1 r1 h2 r2 a b w show ?thesis
    by simp
qed

subsection \<open>The key type of a credential\<close>

lemma parse_credential_key:
  assumes "parse_credential H b p c e = Some (cred, err, p')"
    and "parse_principal H b p c e = Some (client, p1)"
    and "parse_principal H b p1 c e = Some (server, p2)"
  shows "\<exists>k1 k q. read_int16 b p2 e = Some (k1, p2 + 2) \<and>
    (if Version c = 3 then read_int16 b (p2 + 2) e = Some (k, p2 + 4) \<and>
       read_data b (p2 + 4) e = Some (KeyValue (Key cred), q)
     else k = k1 \<and> read_data b (p2 + 2) e = Some (KeyValue (Key cred), q)) \<and>
    KeyType (Key cred) = sint k"
proof -
  from assms obtain k1 q1 k q2 kv q3 where
    r1: "read_int16 b p2 e = Some (k1, q1)" and
    r2: "(if Version c = 3 then read_int16 b q1 e else Some (k1, q1)) = Some (k, q2)" and
    r3: "read_data b q2 e = Some (kv, q3)" and
    key: "Key cred = \<lparr>KeyType = sint k, KeyValue = kv\<rparr>"
    by (auto simp: parse_credential_def Let_def split: bind_splits)
  from read_int16_cursor [OF r1] have q1: "q1 = p2 + 2" .
  show ?thesis
  proof (cases "Version c = 3")
    case True
    with r2 have r2': "read_int16 b q1 e = Some (k, q2)"
      by simp
    from read_int16_cursor [OF r2'] q1 have "q2 = p2 + 4"
      by simp
    with True r1 r2' r3 key q1 show ?thesis
      by auto
  next
    case False
    with r2 have "k = k1" "q2 = q1"
      by simp_all
    with False r1 r3 key q1 show ?thesis
      by auto
  qed
qed

text \<open>
  C5. In a credential that \<open>parse_credential\<close> decodes, with the two principals
  ending at offset \<open>p2\<close>: for version 3 two 16-bit key types are read, at \<open>p2\<close> and at
  \<open>p2 + 2\<close>, the key type of the credential is the second, and the key follows at
  \<open>p2 + 4\<close>; for any other version one key type is read, at \<open>p2\<close>, it is the key type
  of the credential, and the key follows at \<open>p2 + 2\<close>.
\<close>

theorem parse_credential_key_type:
  "parse_credential H b p c e = Some (cred, err, p') \<and>
   parse_principal H b p c e = Some (client, p1) \<and>
   parse_principal H b p1 c e = Some (server, p2) \<longrightarrow>
     (Version c = 3 \<longrightarrow>
        (\<exists>k1 k2 q. read_int16 b p2 e = Some (k1, p2 + 2) \<and>
           read_int16 b (p2 + 2) e = Some (k2, p2 + 4) \<and>
           KeyType (Key cred) = sint k2 \<and>
           read_data b (p2 + 4) e = Some (KeyValue (Key cred), q))) \<and>
     (Version c \<noteq> 3 \<longrightarrow>
        (\<exists>k q. read_int16 b p2 e = Some (k, p2 + 2) \<and>
           KeyType (Key cred) = sint k \<and>
           read_data b (p2 + 2) e = Some (KeyValue (Key cred), q)))"
proof (intro impI conjI)
  assume a: "parse_credential H b p c e = Some (cred, err, p') \<and>
   parse_principal H b p c e = Some (client, p1) \<and>
   parse_principal H b p1 c e = Some (server, p2)"
  {
    assume "Version c = 3"
    with a parse_credential_key [of H b p c e cred err p' client p1 server p2]
    show "\<exists>k1 k2 q. read_int16 b p2 e = Some (k1, p2 + 2) \<and>
           read_int16 b (p2 + 2) e = Some (k2, p2 + 4) \<and>
           KeyType (Key cred) = sint k2 \<and>
           read_data b (p2 + 4) e = Some (KeyValue (Key cred), q)"
      by auto
  next
    assume "Version c \<noteq> 3"
    with a parse_credential_key [of H b p c e cred err p' client p1 server p2]
    show "\<exists>k q. read_int16 b p2 e = Some (k, p2 + 2) \<and>
           KeyType (Key cred) = sint k \<and>
           read_data b (p2 + 2) e = Some (KeyValue (Key cred), q)"
      by auto
  }
qed

text \<open>
  A credential with empty principals, the key types 1 and then 2, and the key \<open>[9]\<close>, as
  version 3 encodes it; and the same bytes read by version 4, where the second key type
  is the first half of the length of the key.
\<close>

definition credential_v3 :: "byte list" where
  "credential_v3 = replicate 24 0 @ [0, 1, 0, 2, 0, 0, 0, 1, 9] @ replicate 37 0"

definition credential_v4 :: "byte list" where
  "credential_v4 = replicate 24 0 @ [0, 1, 0, 0, 0, 1, 9] @ replicate 37 0"

definition credential_key :: "int \<Rightarrow> credential" where
  "credential_key k = zero_credential\<lparr>Key := \<lparr>KeyType = k, KeyValue = [9]\<rparr>,
     TicketFlags := [0, 0, 0, 0]\<rparr>"

theorem parse_credential_key_type_witness:
  "parse_credential amd64 (fresh credential_v3) 0 (zero_CCache\<lparr>Version := 3\<rparr>) BigEndian
     = Some (credential_key 2, None, 70) \<and>
   read_int16 (fresh credential_v3) 24 BigEndian = Some (1, 26) \<and>
   read_int16 (fresh credential_v3) 26 BigEndian = Some (2, 28) \<and>
   KeyType (Key (credential_key 2)) = sint (2 :: 16 word) \<and>
   read_data (fresh credential_v3) 28 BigEndian = Some (KeyValue (Key (credential_key 2)), 33) \<and>
   parse_credential amd64 (fresh credential_v4) 0 (zero_CCache\<lparr>Version := 4\<rparr>) BigEndian
     = Some (credential_key 1, None, 68) \<and>
   read_int16 (fresh credential_v4) 24 BigEndian = Some (1, 26) \<and>
   KeyType (Key (credential_key 1)) = sint (1 :: 16 word) \<and>
   read_data (fresh credential_v4) 26 BigEndian = Some (KeyValue (Key (credential_key 1)), 31)"
proof -
  let ?c3 = "zero_CCache\<lparr>Version := 3\<rparr>" and ?c4 = "zero_CCache\<lparr>Version := 4\<rparr>"
  let ?b3 = "fresh credential_v3" and ?b4 = "fresh credential_v4"
  have v: "Version ?c3 = 3" "Version ?c4 \<noteq> 3"
    by simp_all
  have h3: "parse_credential amd64 ?b3 0 ?c3 BigEndian = Some (credential_key 2, None, 70)"
    and p3: "parse_principal amd64 ?b3 0 ?c3 BigEndian = Some (zero_principal, 12)"
      "parse_principal amd64 ?b3 12 ?c3 BigEndian = Some (zero_principal, 24)"
    and r3: "read_int16 ?b3 24 BigEndian = Some (1, 26)"
      "read_int16 ?b3 26 BigEndian = Some (2, 28)"
      "read_data ?b3 28 BigEndian = Some ([9], 33)"
    and h4: "parse_credential amd64 ?b4 0 ?c4 BigEndian = Some (credential_key 1, None, 68)"
    and p4: "parse_principal amd64 ?b4 0 ?c4 BigEndian = Some (zero_principal, 12)"
      "parse_principal amd64 ?b4 12 ?c4 BigEndian = Some (zero_principal, 24)"
    and r4: "read_int16 ?b4 24 BigEndian = Some (1, 26)"
      "read_data ?b4 26 BigEndian = Some ([9], 31)"
    by code_simp+
  from parse_credential_key_type
    [of amd64 ?b3 0 ?c3 BigEndian "credential_key 2" None 70 zero_principal 12 zero_principal 24]
    v h3 p3 r3
  have a: "KeyType (Key (credential_key 2)) = sint (2 :: 16 word)"
    "read_data ?b3 28 BigEndian = Some (KeyValue (Key (credential_key 2)), 33)"
    by auto
  from parse_credential_key_type
    [of amd64 ?b4 0 ?c4 BigEndian "credential_key 1" None 68 zero_principal 12 zero_principal 24]
    v h4 p4 r4
  have b: "KeyType (Key (credential_key 1)) = sint (1 :: 16 word)"
    "read_data ?b4 26 BigEndian = Some (KeyValue (Key (credential_key 1)), 31)"
    by auto
  from h3 r3 h4 r4 a b show ?thesis
    by simp
qed

subsection \<open>Truncated buffers\<close>

text \<open>
  What a decoder returns on a slice it also returns on every slice whose underlying
  array extends that of the first: the reads that did not panic see the same bytes.
\<close>

lemma slice_expr_prefix:
  assumes "prefix (array a) (array b)" and "slice_expr a lo hi = Some v"
  shows "slice_expr b lo hi = Some v"
proof -
  from assms(1) obtain zs where b: "array b = array a @ zs"
    by (auto simp: prefix_def)
  from assms(2) have r: "0 \<le> lo" "lo \<le> hi" "hi \<le> int (length (array a))"
    and v: "v = take (nat (hi - lo)) (drop (nat lo) (array a))"
    by (auto simp: slice_expr_def split: if_splits)
  from r have "nat (hi - lo) \<le> length (array a) - nat lo"
    by linarith
  with r show ?thesis
    by (simp add: slice_expr_def b v)
qed

lemma slice_expr_bound: "slice_expr a lo hi = Some v \<Longrightarrow> hi \<le> int (length (array a))"
  by (auto simp: slice_expr_def split: if_splits)

lemma read_int8_prefix:
  "prefix (array a) (array b) \<Longrightarrow> read_int8 a p e = Some r \<Longrightarrow> read_int8 b p e = Some r"
  by (auto simp: read_int8_def split: bind_splits dest!: slice_expr_prefix)

lemma read_int16_prefix:
  "prefix (array a) (array b) \<Longrightarrow> read_int16 a p e = Some r \<Longrightarrow> read_int16 b p e = Some r"
  by (auto simp: read_int16_def split: bind_splits dest!: slice_expr_prefix)

lemma read_int32_prefix:
  "prefix (array a) (array b) \<Longrightarrow> read_int32 a p e = Some r \<Longrightarrow> read_int32 b p e = Some r"
  by (auto simp: read_int32_def split: bind_splits dest!: slice_expr_prefix)

lemma read_Bytes_prefix:
  "prefix (array a) (array b) \<Longrightarrow> read_Bytes a p s e = Some r \<Longrightarrow> read_Bytes b p s e = Some r"
  by (auto simp: read_Bytes_def split: bind_splits dest!: slice_expr_prefix)

lemma read_Bytes_bound:
  "read_Bytes a p s e = Some (v, p') \<Longrightarrow> p' \<le> int (length (array a))"
  by (auto simp: read_Bytes_def split: bind_splits dest!: slice_expr_bound)

lemma read_data_prefix:
  assumes "prefix (array a) (array b)" and "read_data a p e = Some r"
  shows "read_data b p e = Some r"
  using assms(2)
  by (auto simp: read_data_def split: bind_splits
      dest!: read_int32_prefix [OF assms(1)] read_Bytes_prefix [OF assms(1)])

lemma read_data_bound:
  "read_data a p e = Some (v, p') \<Longrightarrow> p' \<le> int (length (array a))"
  by (auto simp: read_data_def split: bind_splits dest!: read_Bytes_bound)

lemma read_timestamp_prefix:
  assumes "prefix (array a) (array b)" and "read_timestamp a p e = Some r"
  shows "read_timestamp b p e = Some r"
  using assms(2)
  by (auto simp: read_timestamp_def split: bind_splits dest!: read_int32_prefix [OF assms(1)])

lemma read_address_prefix:
  assumes "prefix (array a) (array b)" and "read_address a p e = Some r"
  shows "read_address b p e = Some r"
  using assms(2)
  by (auto simp: read_address_def split: bind_splits
      dest!: read_int16_prefix [OF assms(1)] read_data_prefix [OF assms(1)])

lemma read_authDataEntry_prefix:
  assumes "prefix (array a) (array b)" and "read_authDataEntry a p e = Some r"
  shows "read_authDataEntry b p e = Some r"
  using assms(2)
  by (auto simp: read_authDataEntry_def split: bind_splits
      dest!: read_int16_prefix [OF assms(1)] read_data_prefix [OF assms(1)])

lemma parse_principal_loop_prefix:
  "prefix (array a) (array b) \<Longrightarrow> parse_principal_loop a p e i nc ns = Some r \<Longrightarrow>
    parse_principal_loop b p e i nc ns = Some r"
proof (induction a p e i nc ns rule: parse_principal_loop.induct)
  case (1 a p e i nc ns)
  note pre = "1.prems"(1)
  show ?case
  proof (cases "i < nc")
    case True
    with "1.prems"(2) obtain l p1 s p2 where
      r1: "read_int32 a p e = Some (l, p1)" and
      r2: "read_Bytes a p1 (sint l) e = Some (s, p2)" and
      r3: "parse_principal_loop a p2 e (i + 1) nc (ns @ [string_of_bytes s]) = Some r"
      by (subst (asm) parse_principal_loop.simps) (auto split: bind_splits)
    from "1.IH" [OF True r1 refl r2 refl pre r3]
    have "parse_principal_loop b p2 e (i + 1) nc (ns @ [string_of_bytes s]) = Some r" .
    with True read_int32_prefix [OF pre r1] read_Bytes_prefix [OF pre r2] show ?thesis
      by (subst parse_principal_loop.simps) simp
  next
    case False
    with "1.prems"(2) have "r = (ns, p)"
      by (subst (asm) parse_principal_loop.simps) simp
    with False show ?thesis
      by (subst parse_principal_loop.simps) simp
  qed
qed

lemma parse_principal_prefix:
  assumes "prefix (array a) (array b)" and "parse_principal H a p c e = Some r"
  shows "parse_principal H b p c e = Some r"
  using assms(2)
  unfolding parse_principal_def Let_def
  by (auto split: bind_splits if_splits
      dest!: read_int32_prefix [OF assms(1)] read_Bytes_prefix [OF assms(1)]
        parse_principal_loop_prefix [OF assms(1)])

lemma read_address_loop_prefix:
  "prefix (array a) (array b) \<Longrightarrow> read_address_loop a p e i as = Some r \<Longrightarrow>
    read_address_loop b p e i as = Some r"
proof (induction a p e i as rule: read_address_loop.induct)
  case (1 a p e i as)
  note pre = "1.prems"(1)
  show ?case
  proof (cases "i < int (length as)")
    case True
    with "1.prems"(2) obtain x p1 where
      r1: "read_address a p e = Some (x, p1)" and
      r2: "read_address_loop a p1 e (i + 1) (as[nat i := x]) = Some r"
      by (subst (asm) read_address_loop.simps) (auto split: bind_splits)
    from "1.IH" [OF True r1 refl pre r2] True read_address_prefix [OF pre r1] show ?thesis
      by (subst read_address_loop.simps) simp
  next
    case False
    with "1.prems"(2) have "r = (as, p)"
      by (subst (asm) read_address_loop.simps) simp
    with False show ?thesis
      by (subst read_address_loop.simps) simp
  qed
qed

lemma read_authDataEntry_loop_prefix:
  "prefix (array a) (array b) \<Longrightarrow> read_authDataEntry_loop a p e i as = Some r \<Longrightarrow>
    read_authDataEntry_loop b p e i as = Some r"
proof (induction a p e i as rule: read_authDataEntry_loop.induct)
  case (1 a p e i as)
  note pre = "1.prems"(1)
  show ?case
  proof (cases "i < int (length as)")
    case True
    with "1.prems"(2) obtain x p1 where
      r1: "read_authDataEntry a p e = Some (x, p1)" and
      r2: "read_authDataEntry_loop a p1 e (i + 1) (as[nat i := x]) = Some r"
      by (subst (asm) read_authDataEntry_loop.simps) (auto split: bind_splits)
    from "1.IH" [OF True r1 refl pre r2] True read_authDataEntry_prefix [OF pre r1] show ?thesis
      by (subst read_authDataEntry_loop.simps) simp
  next
    case False
    with "1.prems"(2) have "r = (as, p)"
      by (subst (asm) read_authDataEntry_loop.simps) simp
    with False show ?thesis
      by (subst read_authDataEntry_loop.simps) simp
  qed
qed

lemma parse_principal_loop_bound:
  "parse_principal_loop a p e i nc ns = Some (ns', p') \<Longrightarrow> p \<le> int (length (array a)) \<Longrightarrow>
     p' \<le> int (length (array a))"
proof (induction a p e i nc ns rule: parse_principal_loop.induct)
  case (1 a p e i nc ns)
  show ?case
  proof (cases "i < nc")
    case True
    with "1.prems"(1) obtain l p1 s p2 where
      r1: "read_int32 a p e = Some (l, p1)" and
      r2: "read_Bytes a p1 (sint l) e = Some (s, p2)" and
      r3: "parse_principal_loop a p2 e (i + 1) nc (ns @ [string_of_bytes s]) = Some (ns', p')"
      by (subst (asm) parse_principal_loop.simps) (auto split: bind_splits)
    from "1.IH" [OF True r1 refl r2 refl r3 read_Bytes_bound [OF r2]] show ?thesis .
  next
    case False
    with "1.prems" show ?thesis
      by (subst (asm) parse_principal_loop.simps) simp
  qed
qed

lemma parse_principal_bound:
  assumes "parse_principal H a p c e = Some (princ, p')"
  shows "p' \<le> int (length (array a))"
proof -
  from assms obtain l p2 r p3 nc ns0 ns where
    "read_Bytes a p2 l e = Some (r, p3)" and
    "parse_principal_loop a p3 e 0 nc ns0 = Some (ns, p')"
    unfolding parse_principal_def Let_def
    by (auto split: bind_splits if_splits)
  then show ?thesis
    by (blast intro: parse_principal_loop_bound read_Bytes_bound)
qed

lemma parse_credential_bound:
  assumes "parse_credential H a p c e = Some (cred, err, p')"
  shows "p' \<le> int (length (array a))"
proof -
  from assms obtain q where "read_data a q e = Some (SecondTicket cred, p')"
    unfolding parse_credential_def Let_def
    by (auto split: bind_splits if_splits)
  then show ?thesis
    by (rule read_data_bound)
qed

text \<open>\<open>agrees m m'\<close>: the run \<open>m\<close> panics or \<open>m'\<close> returns what \<open>m\<close> returns.\<close>

definition agrees :: "'a option \<Rightarrow> 'a option \<Rightarrow> bool" where
  "agrees m m' \<longleftrightarrow> m = None \<or> m' = m"

lemma agreesI: "(\<And>r. m = Some r \<Longrightarrow> m' = Some r) \<Longrightarrow> agrees m m'"
  by (cases m) (auto simp: agrees_def)

lemma agreesD: "agrees m m' \<Longrightarrow> m = Some r \<Longrightarrow> m' = Some r"
  by (auto simp: agrees_def)

lemma agrees_refl: "agrees m m"
  by (simp add: agrees_def)

lemma agrees_bind:
  assumes "agrees m m'" and "\<And>x. agrees (f x) (f' x)"
  shows "agrees (m \<bind> f) (m' \<bind> f')"
  using assms by (cases m) (auto simp: agrees_def)

lemma agrees_case_prod:
  assumes "\<And>x y. agrees (f x y) (f' x y)"
  shows "agrees (case z of (x, y) \<Rightarrow> f x y) (case z of (x, y) \<Rightarrow> f' x y)"
  using assms by (cases z) simp

lemma agrees_if:
  assumes "agrees t t'" and "agrees u u'"
  shows "agrees (if c then t else u) (if c then t' else u')"
  using assms by simp

lemma parse_credential_agrees:
  assumes pre: "prefix (array a) (array b)"
  shows "agrees (parse_credential H a p c e) (parse_credential H b p c e)"
  unfolding parse_credential_def Let_def
  by (intro agrees_bind agrees_case_prod agrees_if agrees_refl
      agreesI [OF parse_principal_prefix [OF pre]] agreesI [OF read_int8_prefix [OF pre]]
      agreesI [OF read_int16_prefix [OF pre]] agreesI [OF read_int32_prefix [OF pre]]
      agreesI [OF read_Bytes_prefix [OF pre]] agreesI [OF read_data_prefix [OF pre]]
      agreesI [OF read_timestamp_prefix [OF pre]]
      agreesI [OF read_address_loop_prefix [OF pre]]
      agreesI [OF read_authDataEntry_loop_prefix [OF pre]])

lemma parse_credential_prefix:
  assumes "prefix (array a) (array b)" and "parse_credential H a p c e = Some r"
  shows "parse_credential H b p c e = Some r"
  using parse_credential_agrees [OF assms(1)] assms(2) by (rule agreesD)

lemma parse_header_loop_prefix:
  "prefix (array a) (array b) \<Longrightarrow> parse_header_loop a p h e = Some r \<Longrightarrow>
     parse_header_loop b p h e = Some r"
proof (induction a p h e rule: parse_header_loop.induct)
  case (1 a p h e)
  note pre = "1.prems"(1)
  show ?case
  proof (cases "p \<le> uint (length_h h)")
    case True
    from True "1.prems"(2) show ?thesis
    proof (rule parse_header_loop_unfold)
      fix t p1 l p2 v
      let ?f = "\<lparr>tag = t, length_f = l, value_f = v\<rparr>"
      let ?h = "h\<lparr>fields_h := fields_h h @ [?f]\<rparr>"
      assume r: "read_int16 a p e = Some (t, p1)" "read_int16 a p1 e = Some (l, p2)"
        "slice_expr a p2 (p2 + uint l) = Some v"
        and bad: "\<not> valid ?f \<Longrightarrow> r = (p2 + uint l, Inl InvalidHeaderField)"
        and good: "valid ?f \<Longrightarrow> parse_header_loop a (p2 + uint l) ?h e = Some r"
      note rb = read_int16_prefix [OF pre r(1)] read_int16_prefix [OF pre r(2)]
        slice_expr_prefix [OF pre r(3)]
      show ?thesis
      proof (cases "valid ?f")
        case v: True
        from "1.IH" [OF True r(1) refl r(2) refl r(3) refl refl _ pre good [OF v]] v
        have "parse_header_loop b (p2 + uint l) ?h e = Some r"
          by simp
        with v show ?thesis
          by (simp add: parse_header_loop_field [OF True rb])
      next
        case False
        with bad show ?thesis
          by (simp add: parse_header_loop_field [OF True rb])
      qed
    qed
  next
    case False
    with "1.prems"(2) show ?thesis
      by (simp add: parse_header_loop_stop)
  qed
qed

lemma parse_header_agrees:
  assumes pre: "prefix (array a) (array b)"
  shows "agrees (parse_header a p c e) (parse_header b p c e)"
  unfolding parse_header_def Let_def
  by (intro agrees_bind agrees_case_prod agrees_if agrees_refl
      agreesI [OF read_int16_prefix [OF pre]] agreesI [OF parse_header_loop_prefix [OF pre]])

lemma ParseCCache_loop_stop:
  "\<not> p < len b \<Longrightarrow> ParseCCache_loop H b p c e = Some (c, None)"
  by (subst ParseCCache_loop.simps) simp

lemma ParseCCache_loop_step:
  assumes "p < len b" and "parse_credential H b p c e = Some (cred, err, p')"
  shows "ParseCCache_loop H b p c e =
    ParseCCache_loop H b p' (c\<lparr>Credentials := Credentials c @ [cred]\<rparr>) e"
  using assms parse_credential_err [OF assms(2)]
  by (subst ParseCCache_loop.simps) simp

lemma ParseCCache_loop_reads:
  assumes "p < len b" and "ParseCCache_loop H b p c e = Some r"
  shows "\<exists>cred p'. parse_credential H b p c e = Some (cred, None, p')"
proof -
  from assms obtain cred err p' where "parse_credential H b p c e = Some (cred, err, p')"
    by (subst (asm) ParseCCache_loop.simps) (auto split: bind_splits)
  with parse_credential_err [OF this] show ?thesis
    by auto
qed

lemma ParseCCache_loop_prefix:
  "prefix (array a) (array b) \<Longrightarrow> len a \<le> len b \<Longrightarrow>
   ParseCCache_loop H a p c e = Some (c', r) \<Longrightarrow> p \<le> int (length (array a)) \<Longrightarrow>
     \<exists>p'. len a \<le> p' \<and> p' \<le> int (length (array a)) \<and>
       ParseCCache_loop H b p c e = ParseCCache_loop H b p' c' e"
proof (induction H a p c e rule: ParseCCache_loop.induct)
  case (1 H a p c e)
  note pre = "1.prems"(1) and le = "1.prems"(2)
  show ?case
  proof (cases "p < len a")
    case True
    from ParseCCache_loop_reads [OF True "1.prems"(3)] obtain cred p1 where
      r: "parse_credential H a p c e = Some (cred, None, p1)"
      by blast
    let ?c = "c\<lparr>Credentials := Credentials c @ [cred]\<rparr>"
    from "1.prems"(3) have "ParseCCache_loop H a p1 ?c e = Some (c', r)"
      by (simp add: ParseCCache_loop_step [OF True r])
    from "1.IH" [OF True r refl refl refl pre le this parse_credential_bound [OF r]]
    obtain p' where p': "len a \<le> p'" "p' \<le> int (length (array a))"
      "ParseCCache_loop H b p1 ?c e = ParseCCache_loop H b p' c' e"
      by blast
    from True le have "p < len b"
      by simp
    from ParseCCache_loop_step [OF this parse_credential_prefix [OF pre r]] p'
    show ?thesis
      by auto
  next
    case False
    with "1.prems"(3) have "c' = c"
      by (simp add: ParseCCache_loop_stop)
    with False "1.prems"(4) show ?thesis
      by (intro exI [of _ p]) simp
  qed
qed

lemma ParseCCache_loop_appends:
  "ParseCCache_loop H b p c e = Some (c', r) \<Longrightarrow>
     \<exists>cs. c' = c\<lparr>Credentials := Credentials c @ cs\<rparr> \<and> (p < len b \<longrightarrow> cs \<noteq> [])"
proof (induction H b p c e rule: ParseCCache_loop.induct)
  case (1 H b p c e)
  show ?case
  proof (cases "p < len b")
    case True
    from ParseCCache_loop_reads [OF True "1.prems"] obtain cred p1 where
      r: "parse_credential H b p c e = Some (cred, None, p1)"
      by blast
    let ?c = "c\<lparr>Credentials := Credentials c @ [cred]\<rparr>"
    from "1.prems" have "ParseCCache_loop H b p1 ?c e = Some (c', r)"
      by (simp add: ParseCCache_loop_step [OF True r])
    from "1.IH" [OF True r refl refl refl this] obtain cs where
      "c' = ?c\<lparr>Credentials := Credentials ?c @ cs\<rparr>"
      by blast
    then have "c' = c\<lparr>Credentials := Credentials c @ cred # cs\<rparr>"
      by simp
    then show ?thesis
      by blast
  next
    case False
    with "1.prems" have "c' = c"
      by (simp add: ParseCCache_loop_stop)
    with False show ?thesis
      by (intro exI [of _ "[]"]) simp
  qed
qed

lemma ParseCCache_body_prefix:
  assumes pre: "prefix (array a) (array b)" and le: "len a \<le> len b"
    and run: "ParseCCache_body H a c e = Some (c', r)"
  shows "(\<exists>err. r = Some err \<and> ParseCCache_body H b c e = Some (c', Some err)) \<or>
    (r = None \<and> (\<exists>p'. len a \<le> p' \<and> p' \<le> int (length (array a)) \<and>
       ParseCCache_body H b c e = ParseCCache_loop H b p' c' e))"
proof -
  let ?h = "\<lambda>x. if Version c = 4 then parse_header x 2 c e else Some (2, c, None)"
  from run obtain p1 c1 err1 where
    h: "?h a = Some (p1, c1, err1)"
    and rest: "(case err1 of
        Some er \<Rightarrow> Some (c1, Some er)
      | None \<Rightarrow> do {
          (princ, p) \<leftarrow> parse_principal H a p1 c1 e;
          let c = c1\<lparr>DefaultPrincipal := princ\<rparr>;
          ParseCCache_loop H a p c e
        }) = Some (c', r)"
    by (auto simp: ParseCCache_body_def split: bind_splits)
  from h have hb: "?h b = Some (p1, c1, err1)"
    using agreesD [OF parse_header_agrees [OF pre]] by (auto split: if_splits)
  show ?thesis
  proof (cases err1)
    case (Some er)
    with rest have "c' = c1" "r = Some er"
      by simp_all
    with Some hb show ?thesis
      by (simp add: ParseCCache_body_def)
  next
    case None
    with rest obtain princ p2 where
      pp: "parse_principal H a p1 c1 e = Some (princ, p2)" and
      loop: "ParseCCache_loop H a p2 (c1\<lparr>DefaultPrincipal := princ\<rparr>) e = Some (c', r)"
      by (auto simp: Let_def split: bind_splits)
    from ParseCCache_loop_no_error [OF loop] have r: "r = None" .
    from ParseCCache_loop_prefix [OF pre le loop parse_principal_bound [OF pp]]
    obtain p' where p': "len a \<le> p'" "p' \<le> int (length (array a))"
      "ParseCCache_loop H b p2 (c1\<lparr>DefaultPrincipal := princ\<rparr>) e = ParseCCache_loop H b p' c' e"
      by blast
    from hb None parse_principal_prefix [OF pre pp]
    have "ParseCCache_body H b c e = ParseCCache_loop H b p2 (c1\<lparr>DefaultPrincipal := princ\<rparr>) e"
      by (simp add: ParseCCache_body_def)
    with r p' show ?thesis
      by auto
  qed
qed

lemma ParseCCache_Some_elems:
  assumes "ParseCCache H b = Some (c, None)"
  shows "\<exists>v rest. elems b = 5 # v # rest \<and> \<not> (v < 1 \<or> v > 4) \<and>
    ParseCCache_body H b (zero_CCache\<lparr>Version := v\<rparr>)
      (if (v = 1 \<or> v = 2) \<and> isNativeEndianLittle H then LittleEndian else BigEndian)
      = Some (c, None)"
proof (cases "elems b")
  case Nil
  with assms show ?thesis
    by (simp add: ParseCCache_eq)
next
  case (Cons x xs)
  note b = this
  show ?thesis
  proof (cases xs)
    case Nil
    with assms b show ?thesis
      by (simp add: ParseCCache_eq split: if_splits)
  next
    case (Cons v rest)
    with assms b show ?thesis
      by (auto simp: ParseCCache_eq split: if_splits)
  qed
qed

lemma fresh_take_prefix: "prefix (array (fresh (take k (elems b)))) (array b)"
proof -
  have "array b = array (fresh (take k (elems b))) @ (drop k (elems b) @ spare b)"
    by (simp add: array_def fresh_def)
  then show ?thesis
    by (rule prefixI)
qed

lemma ParseCCache_truncated_aux:
  assumes ok: "ParseCCache H b = Some (c, None)" and k: "k < length (elems b)"
  shows "ParseCCache H (fresh (take k (elems b))) = None \<or>
    (\<exists>cs cs'. cs' \<noteq> [] \<and> Credentials c = cs @ cs' \<and>
       ParseCCache H (fresh (take k (elems b))) = Some (c\<lparr>Credentials := cs\<rparr>, None))"
proof -
  let ?a = "fresh (take k (elems b))"
  from ParseCCache_Some_elems [OF ok] obtain v rest where b: "elems b = 5 # v # rest"
    and v: "\<not> (v < 1 \<or> v > 4)"
    and body: "ParseCCache_body H b (zero_CCache\<lparr>Version := v\<rparr>)
      (if (v = 1 \<or> v = 2) \<and> isNativeEndianLittle H then LittleEndian else BigEndian)
      = Some (c, None)"
    by blast
  let ?c0 = "zero_CCache\<lparr>Version := v\<rparr>"
  let ?e = "if (v = 1 \<or> v = 2) \<and> isNativeEndianLittle H then LittleEndian else BigEndian"
  show ?thesis
  proof (cases "k < 2")
    case True
    then consider "k = 0" | "k = 1"
      by linarith
    then have "ParseCCache H ?a = None"
    proof cases
      case 1
      then show ?thesis
        by (simp add: ParseCCache_eq fresh_def)
    next
      case 2
      then show ?thesis
        by (simp add: ParseCCache_eq fresh_def b)
    qed
    then show ?thesis ..
  next
    case False
    then have "k = Suc (Suc (k - 2))"
      by simp
    then have "take k (elems b) = 5 # v # take (k - 2) rest"
      by (metis b take_Suc_Cons)
    then have a: "elems ?a = 5 # v # take (k - 2) rest"
      by (simp add: fresh_def)
    have eq: "ParseCCache H ?a = ParseCCache_body H ?a ?c0 ?e"
      using v by (simp only: ParseCCache_eq [of H ?a] a list.case) simp
    note pre = fresh_take_prefix [of k b]
    from k have le: "len ?a \<le> len b" and cap: "int (length (array ?a)) = int k"
      and lena: "len ?a = int k" and lt: "int k < len b"
      by (simp_all add: len_def array_def fresh_def)
    show ?thesis
    proof (cases "ParseCCache_body H ?a ?c0 ?e")
      case None
      with eq show ?thesis
        by simp
    next
      case (Some res)
      obtain c' r where res: "res = (c', r)"
        by (cases res)
      from Some res have run: "ParseCCache_body H ?a ?c0 ?e = Some (c', r)"
        by simp
      from ParseCCache_body_prefix [OF pre le run] body
      obtain p' where r: "r = None" and p': "len ?a \<le> p'" "p' \<le> int (length (array ?a))"
        and loop: "ParseCCache_loop H b p' c' ?e = Some (c, None)"
        by auto
      from p' cap lena have "p' = int k"
        by simp
      with ParseCCache_loop_appends [OF loop] lt obtain cs where
        cs: "c = c'\<lparr>Credentials := Credentials c' @ cs\<rparr>" "cs \<noteq> []"
        by auto
      then have c': "c' = c\<lparr>Credentials := Credentials c'\<rparr>"
        and app: "Credentials c = Credentials c' @ cs"
        by simp_all
      from eq run r c' have "ParseCCache H ?a = Some (c\<lparr>Credentials := Credentials c'\<rparr>, None)"
        by simp
      with cs(2) app show ?thesis
        by blast
    qed
  qed
qed

lemma slice_expr_None:
  "slice_expr b lo hi = None \<longleftrightarrow> \<not> (0 \<le> lo \<and> lo \<le> hi \<and> hi \<le> int (length (array b)))"
  by (simp add: slice_expr_def)

lemma reads_None:
  "read_int8 b p e = None \<longleftrightarrow> \<not> (0 \<le> p \<and> p + 1 \<le> int (length (array b)))"
  "read_int16 b p e = None \<longleftrightarrow> \<not> (0 \<le> p \<and> p + 2 \<le> int (length (array b)))"
  "read_int32 b p e = None \<longleftrightarrow> \<not> (0 \<le> p \<and> p + 4 \<le> int (length (array b)))"
  "read_Bytes b p s e = None \<longleftrightarrow> \<not> (0 \<le> p \<and> 0 \<le> s \<and> p + s \<le> int (length (array b)))"
  by (auto simp: read_int8_def read_int16_def read_int32_def read_Bytes_def slice_expr_None
      bind_eq_None_conv)

text \<open>
  A version-3 cache with an empty default principal and one credential, 84 bytes long.
  The default principal ends at offset 14.
\<close>

definition one_credential :: "byte list" where
  "one_credential = 5 # 3 # replicate 12 0 @ credential_v3"

text \<open>
  C1. The decoder has no error for truncated input and its primitive reads verify
  nothing before they consume: each is the slice expression \<open>b[*p : *p+n]\<close>, which
  panics exactly when its upper bound exceeds the capacity of the slice (or \<open>n\<close> is
  negative, or the cursor is), and returns otherwise. For a buffer that decodes to a
  cache, decoding its truncation at an offset strictly before its end, held in a slice
  with no spare capacity, never returns an error: it panics, or it returns a cache with
  the same version, header and default principal and with the credentials of the
  whole buffer but for one or more at the end.
\<close>

theorem ParseCCache_truncated:
  "(read_int8 b p e = None \<longleftrightarrow> \<not> (0 \<le> p \<and> p + 1 \<le> int (length (array b)))) \<and>
   (read_int16 b p e = None \<longleftrightarrow> \<not> (0 \<le> p \<and> p + 2 \<le> int (length (array b)))) \<and>
   (read_int32 b p e = None \<longleftrightarrow> \<not> (0 \<le> p \<and> p + 4 \<le> int (length (array b)))) \<and>
   (read_Bytes b p s e = None \<longleftrightarrow>
      \<not> (0 \<le> p \<and> 0 \<le> s \<and> p + s \<le> int (length (array b)))) \<and>
   (ParseCCache H b = Some (c, None) \<and> k < length (elems b) \<longrightarrow>
      ParseCCache H (fresh (take k (elems b))) = None \<or>
      (\<exists>cs cs'. cs' \<noteq> [] \<and> Credentials c = cs @ cs' \<and>
         ParseCCache H (fresh (take k (elems b))) = Some (c\<lparr>Credentials := cs\<rparr>, None)))"
  using reads_None(1) [of b p e] reads_None(2) [of b p e] reads_None(3) [of b p e]
    reads_None(4) [of b p s e] ParseCCache_truncated_aux [of H b c k]
  by blast

theorem ParseCCache_truncated_witness:
  "ParseCCache amd64 (fresh one_credential) =
     Some (zero_CCache\<lparr>Version := 3, Credentials := [credential_key 2]\<rparr>, None) \<and>
   (ParseCCache amd64 (fresh (take 51 one_credential)) = None \<or>
    (\<exists>cs cs'. cs' \<noteq> [] \<and> [credential_key 2] = cs @ cs' \<and>
       ParseCCache amd64 (fresh (take 51 one_credential)) =
         Some (zero_CCache\<lparr>Version := 3, Credentials := cs\<rparr>, None)))"
proof -
  let ?c = "zero_CCache\<lparr>Version := 3, Credentials := [credential_key 2]\<rparr>"
  have h: "ParseCCache amd64 (fresh one_credential) = Some (?c, None)"
    by code_simp
  have k: "51 < length (elems (fresh one_credential))"
    by code_simp
  have e: "elems (fresh one_credential) = one_credential"
    by (simp add: fresh_def)
  from ParseCCache_truncated
    [where H = amd64 and b = "fresh one_credential" and c = ?c and k = 51] h k
  show ?thesis
    by (simp add: e)
qed

text \<open>
  The claim as it stands fails on the cache \<open>one_credential\<close>: cut after the default
  principal it decodes to a cache without the credential, and cut inside the
  credential the decoder panics.
\<close>

theorem ParseCCache_truncated_counterexample:
  "ParseCCache amd64 (fresh one_credential) =
     Some (zero_CCache\<lparr>Version := 3, Credentials := [credential_key 2]\<rparr>, None) \<and>
   ParseCCache amd64 (fresh (take 14 one_credential)) = Some (zero_CCache\<lparr>Version := 3\<rparr>, None) \<and>
   ParseCCache amd64 (fresh (take 51 one_credential)) = None"
  by code_simp

subsection \<open>The byte order of every decoded field\<close>











































end
